theory Spec2Isabelle
  imports Complex_Main "HOL-Library.Log_Nat"
begin

section \<open>The wheel spinner: data model\<close>

text \<open>
  The component \<open>WheelSpinner\<close> keeps a list of wheel items in its state. An item is the
  interface \<open>WheelItem\<close>. The field \<open>id\<close> is called \<open>id_str\<close> here, since \<open>id\<close> is the
  identity function of HOL. The optional field \<open>hidden\<close> is only ever read through
  \<open>!item.hidden\<close> and \<open>item.hidden ? ... : ...\<close>, so an absent field and \<open>false\<close> behave
  alike; both are \<open>False\<close> here.

  A JavaScript \<open>number\<close> is a double. Every probability the component stores is an
  integer: the initial items hold 20, \<open>addItem\<close> stores 10, \<open>updateProbability\<close> is
  called with a slider value of step 1 or with the result of \<open>parseInt\<close>, and every other
  write is a result of \<open>Math.round\<close> or \<open>Math.floor\<close>. The field is an \<open>int\<close>.
  Every other number is a rational, and a finite double is one: a quotient, a product or
  a sum of the source is the exact result rounded to the nearest double, as IEEE 754
  prescribes. Strings are the bytes of their UTF-8 encoding.
\<close>

record WheelItem =
  id_str :: string
  label :: string
  probability :: int
  color :: string
  hidden :: bool

definition COLORS :: "string list" where
  "COLORS = [''#FF6384'', ''#36A2EB'', ''#FFCE56'', ''#4BC0C0'', ''#9966FF'',
             ''#FF9F40'', ''#8AC926'', ''#1982C4'', ''#6A4C93'', ''#F15BB5'']"

definition initial_items :: "WheelItem list" where
  "initial_items =
    [\<lparr>id_str = ''1'', label = ''Prize 1'', probability = 20, color = COLORS ! 0, hidden = False\<rparr>,
     \<lparr>id_str = ''2'', label = ''Prize 2'', probability = 20, color = COLORS ! 1, hidden = False\<rparr>,
     \<lparr>id_str = ''3'', label = ''Prize 3'', probability = 20, color = COLORS ! 2, hidden = False\<rparr>,
     \<lparr>id_str = ''4'', label = ''Prize 4'', probability = 20, color = COLORS ! 3, hidden = False\<rparr>,
     \<lparr>id_str = ''5'', label = ''Prize 5'', probability = 20, color = COLORS ! 4, hidden = False\<rparr>]"

section \<open>Numbers of the host language\<close>

text \<open>
  Rounding to binary64. For \<open>x \<noteq> 0\<close>, \<open>exponent x\<close> is the \<open>e\<close> with
  \<open>2\<^sup>e \<le> |x| < 2\<^sup>e\<^sup>+\<^sup>1\<close>: one less than the bit length of the integer part when
  \<open>|x| \<ge> 1\<close>, and minus the least \<open>m\<close> with \<open>1 / |x| \<le> 2\<^sup>m\<close> otherwise. A double has
  53 significant bits, so the doubles around \<open>x\<close> are the multiples of
  \<open>2\<^sup>e\<^sup>-\<^sup>5\<^sup>2\<close>, and of \<open>2\<^sup>-\<^sup>1\<^sup>0\<^sup>7\<^sup>4\<close> in the subnormal range; \<open>x\<close> goes to the nearest
  one, a tie to the one with an even significand. Overflow to infinity is left out: it
  needs a weight or a rotation beyond \<open>2\<^sup>1\<^sup>0\<^sup>0\<^sup>0\<close>.
\<close>

definition exponent :: "rat \<Rightarrow> int" where
  "exponent x =
    (if 1 \<le> \<bar>x\<bar> then bitlen \<lfloor>\<bar>x\<bar>\<rfloor> - 1 else - bitlen (\<lceil>1 / \<bar>x\<bar>\<rceil> - 1))"

definition round_even :: "rat \<Rightarrow> int" where
  "round_even r =
    (let f = \<lfloor>r\<rfloor>; d = r - of_int f
     in if d < 1 / 2 then f else if 1 / 2 < d then f + 1 else if even f then f else f + 1)"

definition to_double :: "rat \<Rightarrow> rat" where
  "to_double x =
    (if x = 0 then 0
     else let ulp = 2 powi (max (exponent x) (- 1022) - 52)
          in of_int (round_even (x / ulp)) * ulp)"

text \<open>The operators \<open>/\<close>, \<open>*\<close> and \<open>+\<close> on doubles.\<close>

definition ddiv :: "rat \<Rightarrow> rat \<Rightarrow> rat" where
  "ddiv a b = to_double (a / b)"

definition dmul :: "rat \<Rightarrow> rat \<Rightarrow> rat" where
  "dmul a b = to_double (a * b)"

definition dadd :: "rat \<Rightarrow> rat \<Rightarrow> rat" where
  "dadd a b = to_double (a + b)"

text \<open>\<open>Math.round\<close> rounds a double to the nearest integer, a tie towards plus infinity.\<close>

definition Math_round :: "rat \<Rightarrow> int" where
  "Math_round x = \<lfloor>x + 1 / 2\<rfloor>"

text \<open>The operator \<open>%\<close> is the remainder of the truncated quotient: it has the sign of
  the dividend, and on doubles it is exact.\<close>

definition js_rem :: "rat \<Rightarrow> rat \<Rightarrow> rat" where
  "js_rem x m = x - m * of_int (if 0 \<le> x / m then \<lfloor>x / m\<rfloor> else \<lceil>x / m\<rceil>)"

text \<open>\<open>items.reduce((sum, item) => sum + item.probability, 0)\<close>.\<close>

definition reduce_sum :: "WheelItem list \<Rightarrow> int" where
  "reduce_sum items = foldl (\<lambda>sum item. sum + probability item) 0 items"

text \<open>\<open>Date.now().toString()\<close>: the decimal digits of the clock value.\<close>

fun toString :: "nat \<Rightarrow> string" where
  "toString n =
     (if n < 10 then [''0123456789'' ! n]
      else toString (n div 10) @ [''0123456789'' ! (n mod 10)])"

declare toString.simps [simp del]

text \<open>
  \<open>!newItemLabel.trim()\<close>: the label is empty once its white space and line terminators
  are trimmed, that is, it consists of them only. They are TAB, LF, VT, FF, CR and SP,
  and beyond ASCII the code points U+00A0, U+1680, U+2000 to U+200A, U+2028, U+2029,
  U+202F, U+205F, U+3000 and U+FEFF, here in UTF-8.
\<close>

definition is_space :: "char \<Rightarrow> bool" where
  "is_space c = (c \<in> set [CHR '' '', CHR 0x09, CHR 0x0A, CHR 0x0B, CHR 0x0C, CHR 0x0D])"

definition is_space2 :: "char \<Rightarrow> char \<Rightarrow> bool" where
  "is_space2 c1 c2 = (c1 = CHR 0xC2 \<and> c2 = CHR 0xA0)"

definition is_space3 :: "char \<Rightarrow> char \<Rightarrow> char \<Rightarrow> bool" where
  "is_space3 c1 c2 c3 =
    (c1 = CHR 0xE1 \<and> c2 = CHR 0x9A \<and> c3 = CHR 0x80 \<or>
     c1 = CHR 0xE2 \<and> c2 = CHR 0x80 \<and>
       c3 \<in> set [CHR 0x80, CHR 0x81, CHR 0x82, CHR 0x83, CHR 0x84, CHR 0x85, CHR 0x86,
                  CHR 0x87, CHR 0x88, CHR 0x89, CHR 0x8A, CHR 0xA8, CHR 0xA9, CHR 0xAF] \<or>
     c1 = CHR 0xE2 \<and> c2 = CHR 0x81 \<and> c3 = CHR 0x9F \<or>
     c1 = CHR 0xE3 \<and> c2 = CHR 0x80 \<and> c3 = CHR 0x80 \<or>
     c1 = CHR 0xEF \<and> c2 = CHR 0xBB \<and> c3 = CHR 0xBF)"

fun trim_empty :: "string \<Rightarrow> bool" where
  "trim_empty [] = True"
| "trim_empty [c1] = is_space c1"
| "trim_empty [c1, c2] = (is_space c1 \<and> is_space c2 \<or> is_space2 c1 c2)"
| "trim_empty (c1 # c2 # c3 # cs) =
    (if is_space c1 then trim_empty (c2 # c3 # cs)
     else if is_space2 c1 c2 then trim_empty (c3 # cs)
     else is_space3 c1 c2 c3 \<and> trim_empty cs)"

section \<open>The normalizer\<close>

text \<open>
  \<open>normalizeProbabilities(updatedItems, fixedId?)\<close>. The test \<open>if (fixedId)\<close> fails for
  an absent argument and for the empty string.
\<close>

definition normalizeProbabilities :: "WheelItem list \<Rightarrow> string option \<Rightarrow> WheelItem list" where
  "normalizeProbabilities updatedItems fixedId =
    (let safeItems = map (\<lambda>item. item\<lparr>probability := max 1 (probability item)\<rparr>) updatedItems;
         total = reduce_sum safeItems;
         proportional = map (\<lambda>item. item\<lparr>probability :=
             max 1 (Math_round (dmul (ddiv (of_int (probability item)) (of_int total)) 100))\<rparr>) safeItems
     in if total = 0 then safeItems
        else case fixedId of
          None \<Rightarrow> proportional
        | Some fid \<Rightarrow>
            if fid = [] then proportional
            else case find (\<lambda>item. id_str item = fid) safeItems of
              None \<Rightarrow> safeItems
            | Some fixedItem \<Rightarrow>
                let remainingTotal = 100 - probability fixedItem;
                    otherItemsTotal = reduce_sum (filter (\<lambda>item. id_str item \<noteq> fid) safeItems)
                in map (\<lambda>item.
                     if id_str item = fid then item
                     else let ratio = (if otherItemsTotal = 0 then 1
                                       else ddiv (of_int (probability item)) (of_int otherItemsTotal))
                          in item\<lparr>probability :=
                               max 1 (Math_round (dmul (of_int remainingTotal) ratio))\<rparr>) safeItems)"

section \<open>The collection manager\<close>

definition getVisibleItems :: "WheelItem list \<Rightarrow> WheelItem list" where
  "getVisibleItems items = filter (\<lambda>item. \<not> hidden item) items"

text \<open>
  The equal-share redistribution. The first version of the component writes this
  expression out in \<open>removeItem\<close> and in \<open>toggleItemVisibility\<close>; the second version
  names it \<open>calculateEqualShare\<close>. For an empty list \<open>100 / 0\<close> is \<open>Infinity\<close> in the
  source and \<open>0\<close> here, and in both the value is never used, since the map runs over no
  item.
\<close>

definition calculateEqualShare :: "WheelItem list \<Rightarrow> WheelItem list" where
  "calculateEqualShare visibleItems =
    (let equalShare = 100 div int (length visibleItems)
     in map (\<lambda>(index, item). item\<lparr>probability :=
              (if int index = int (length visibleItems) - 1
               then 100 - equalShare * (int (length visibleItems) - 1)
               else equalShare)\<rparr>)
          (enumerate 0 visibleItems))"

text \<open>\<open>normalizedVisible.find((ni) => ni.id === item.id) || item\<close>, for the items that
  are not hidden.\<close>

definition merge_back :: "WheelItem list \<Rightarrow> WheelItem list \<Rightarrow> WheelItem list" where
  "merge_back normalizedVisible updatedItems =
    map (\<lambda>item. if hidden item then item
                else case find (\<lambda>ni. id_str ni = id_str item) normalizedVisible of
                       Some ni \<Rightarrow> ni
                     | None \<Rightarrow> item) updatedItems"

definition addItem :: "nat \<Rightarrow> string \<Rightarrow> WheelItem list \<Rightarrow> WheelItem list" where
  "addItem now newItemLabel items =
    (if trim_empty newItemLabel then items
     else let newItem = \<lparr>id_str = toString now, label = newItemLabel, probability = 10,
                         color = COLORS ! (length items mod length COLORS), hidden = False\<rparr>
          in normalizeProbabilities (items @ [newItem]) None)"

definition removeItem :: "string \<Rightarrow> WheelItem list \<Rightarrow> WheelItem list" where
  "removeItem i items =
    (if length items \<le> 2 then items
     else let updatedItems = filter (\<lambda>item. id_str item \<noteq> i) items;
              visibleItems = getVisibleItems updatedItems;
              normalizedVisible = calculateEqualShare visibleItems
          in merge_back normalizedVisible updatedItems)"

definition updateProbability :: "string \<Rightarrow> int \<Rightarrow> WheelItem list \<Rightarrow> WheelItem list" where
  "updateProbability i v items =
    (let newValue = max 1 (min 99 v);
         updatedItems = map (\<lambda>item. if id_str item = i then item\<lparr>probability := newValue\<rparr>
                                     else item) items
     in normalizeProbabilities updatedItems (Some i))"

definition toggleItemVisibility :: "string \<Rightarrow> WheelItem list \<Rightarrow> WheelItem list" where
  "toggleItemVisibility i items =
    (let updatedItems = map (\<lambda>item. if id_str item = i then item\<lparr>hidden := \<not> hidden item\<rparr>
                                     else item) items;
         visibleItems = getVisibleItems updatedItems;
         normalizedItems = calculateEqualShare visibleItems
     in merge_back normalizedItems updatedItems)"

section \<open>The selection resolver\<close>

text \<open>The loop of \<open>determineWinner\<close> over the normalized items, with its running
  \<open>currentAngle\<close>; \<open>return item\<close> leaves the loop.\<close>

fun winner_loop :: "rat \<Rightarrow> rat \<Rightarrow> WheelItem list \<Rightarrow> WheelItem option" where
  "winner_loop normalizedAngle currentAngle [] = None"
| "winner_loop normalizedAngle currentAngle (item # rest) =
    (let sliceAngle = ddiv (dmul 360 (of_int (probability item))) 100
     in if normalizedAngle \<ge> currentAngle \<and> normalizedAngle < dadd currentAngle sliceAngle
        then Some item
        else winner_loop normalizedAngle (dadd currentAngle sliceAngle) rest)"

definition determineWinner :: "rat \<Rightarrow> WheelItem list \<Rightarrow> WheelItem option" where
  "determineWinner currentRotation visibleItems =
    (let normalizedAngle = js_rem currentRotation 360;
         normalizedItems = normalizeProbabilities visibleItems None
     in winner_loop normalizedAngle 0 normalizedItems)"

text \<open>
  \<open>determineWinner\<close> is a callback of the component: where it is called, the state
  variables of the component, the clock and the random number generator are in scope.
  \<open>component\<close> holds what a callback of \<open>WheelSpinner\<close> can read or set; a call is given
  the component, and returns its value and the component it leaves. The body of
  \<open>determineWinner\<close> is threaded through the component statement by statement: it names
  its two parameters and \<open>normalizeProbabilities\<close> only, and assigns to the locals
  \<open>normalizedAngle\<close>, \<open>normalizedItems\<close>, \<open>currentAngle\<close> and \<open>sliceAngle\<close> only.
\<close>

record component =
  st_items :: "WheelItem list"
  st_newItemLabel :: string
  st_spinning :: bool
  st_rotation :: rat
  st_winner :: "WheelItem option"
  st_winnerHidden :: bool
  st_soundEnabled :: bool
  Date_now :: nat
  Math_random :: rat

fun winner_loop_call ::
    "rat \<Rightarrow> rat \<Rightarrow> WheelItem list \<Rightarrow> component \<Rightarrow> WheelItem option \<times> component" where
  "winner_loop_call normalizedAngle currentAngle [] c = (None, c)"
| "winner_loop_call normalizedAngle currentAngle (item # rest) c =
    (let sliceAngle = ddiv (dmul 360 (of_int (probability item))) 100
     in if normalizedAngle \<ge> currentAngle \<and> normalizedAngle < dadd currentAngle sliceAngle
        then (Some item, c)
        else winner_loop_call normalizedAngle (dadd currentAngle sliceAngle) rest c)"

definition determineWinner_call ::
    "component \<Rightarrow> rat \<Rightarrow> WheelItem list \<Rightarrow> WheelItem option \<times> component" where
  "determineWinner_call c currentRotation visibleItems =
    (let normalizedAngle = js_rem currentRotation 360;
         normalizedItems = normalizeProbabilities visibleItems None
     in winner_loop_call normalizedAngle 0 normalizedItems c)"

text \<open>What \<open>spinWheel\<close> resolves once the animation has reached its terminal rotation:
  nothing below two visible items, the winner among the visible items otherwise.\<close>

definition spinWheel_winner :: "rat \<Rightarrow> WheelItem list \<Rightarrow> WheelItem option" where
  "spinWheel_winner currentRotation items =
    (let visibleItems = getVisibleItems items
     in if length visibleItems < 2 then None
        else determineWinner currentRotation visibleItems)"

section \<open>Sequences of operations\<close>

text \<open>
  The four mutating operations of the collection manager, as the user interface invokes
  them. \<open>AddSegment now label\<close> is \<open>addItem\<close> run when \<open>Date.now()\<close> returns \<open>now\<close> and the
  input field holds \<open>label\<close>. Every operation runs on the collection the previous one
  left.
\<close>

datatype operation =
    AddSegment nat string
  | RemoveSegment string
  | SetWeight string int
  | ToggleVisibility string

fun apply_op :: "operation \<Rightarrow> WheelItem list \<Rightarrow> WheelItem list" where
  "apply_op (AddSegment now newItemLabel) items = addItem now newItemLabel items"
| "apply_op (RemoveSegment i) items = removeItem i items"
| "apply_op (SetWeight i v) items = updateProbability i v items"
| "apply_op (ToggleVisibility i) items = toggleItemVisibility i items"

fun run :: "operation list \<Rightarrow> WheelItem list \<Rightarrow> WheelItem list" where
  "run [] items = items"
| "run (op # ops) items = run ops (apply_op op items)"

text \<open>
  \<open>addItem\<close> clears the input field, so a new label has to be entered between two
  additions and the clock has moved on: an added item gets an id that no item of the
  collection has. \<open>ids_fresh ops items\<close> says so for every addition of \<open>ops\<close>, run from
  \<open>items\<close>.
\<close>

fun ids_fresh :: "operation list \<Rightarrow> WheelItem list \<Rightarrow> bool" where
  "ids_fresh [] items = True"
| "ids_fresh (AddSegment now newItemLabel # ops) items =
    (toString now \<notin> set (map id_str items) \<and>
     ids_fresh ops (apply_op (AddSegment now newItemLabel) items))"
| "ids_fresh (op # ops) items = ids_fresh ops (apply_op op items)"

text \<open>
  When the visible total is known to be near 100. \<open>toggleItemVisibility\<close> and a
  \<open>removeItem\<close> above the floor of two items redistribute 100 over the visible items,
  whatever the weights were. \<open>addItem\<close> with a label that is not blank, and
  \<open>updateProbability\<close> of an id of the collection (or of the empty id, which the
  normalizer takes for no id), normalize the whole collection: the visible total is
  known afterwards when no item is hidden, and not known when one is. The operations
  left (a removal at the floor, a blank label, an id that no item has) keep what was
  known. \<open>settles b op items\<close> is what is known after \<open>op\<close> when \<open>b\<close> was known before,
  and \<open>settled_by b ops items\<close> what is known after the run of \<open>ops\<close>.
\<close>

definition no_hidden :: "WheelItem list \<Rightarrow> bool" where
  "no_hidden items = list_all (\<lambda>item. \<not> hidden item) items"

fun settles :: "bool \<Rightarrow> operation \<Rightarrow> WheelItem list \<Rightarrow> bool" where
  "settles b (ToggleVisibility i) items = True"
| "settles b (RemoveSegment i) items = (b \<or> 2 < length items)"
| "settles b (AddSegment now newItemLabel) items =
    (if trim_empty newItemLabel then b else no_hidden items)"
| "settles b (SetWeight i v) items =
    (if i = [] \<or> i \<in> set (map id_str items) then no_hidden items else b)"

fun settled_by :: "bool \<Rightarrow> operation list \<Rightarrow> WheelItem list \<Rightarrow> bool" where
  "settled_by b [] items = b"
| "settled_by b (op # ops) items = settled_by (settles b op items) ops (apply_op op items)"

text \<open>
  The visible total is near 100: when some item is visible, the visible weights, as
  stored and as clamped to at least 1, sum to 100 up to the number of visible items.
\<close>

definition near_100 :: "WheelItem list \<Rightarrow> bool" where
  "near_100 items \<longleftrightarrow>
     (getVisibleItems items \<noteq> [] \<longrightarrow>
        \<bar>sum_list (map probability (getVisibleItems items)) - 100\<bar>
          \<le> int (length (getVisibleItems items)) \<and>
        \<bar>sum_list (map (\<lambda>item. max 1 (probability item)) (getVisibleItems items)) - 100\<bar>
          \<le> int (length (getVisibleItems items)))"

text \<open>
  A crowded collection: the five initial items and 97 items added at successive clock
  values, 102 visible items of weight 1 each, which is the weight proportional
  normalization gives to each of 102 equal items.
\<close>

definition crowded_items :: "WheelItem list" where
  "crowded_items =
     map (\<lambda>item. item\<lparr>probability := 1\<rparr>) initial_items @
     map (\<lambda>now. \<lparr>id_str = toString now, label = ''Prize'', probability = 1,
                  color = COLORS ! ((now - 1699999999995) mod length COLORS), hidden = False\<rparr>)
       [1700000000000..<1700000000097]"

section \<open>The resolver as the specification words it\<close>

text \<open>
  Section 4.2 of the specification, to be compared with \<open>determineWinner\<close>: the angle is
  reduced modulo 360 to a pointer position in \<open>[0, 360)\<close>; the segments are arcs in list
  order, the first starting at 0, each of width \<open>weight / 100 * 360\<close>; the winner is the
  segment whose interval \<open>[start, start + width)\<close> holds the pointer position, and there
  is no winner when no interval does.
\<close>

definition arc_width :: "WheelItem \<Rightarrow> rat" where
  "arc_width segment = of_int (probability segment) / 100 * 360"

definition arc_start :: "WheelItem list \<Rightarrow> nat \<Rightarrow> rat" where
  "arc_start segments k = sum_list (map arc_width (take k segments))"

definition pointer_position :: "rat \<Rightarrow> rat" where
  "pointer_position angle = angle - 360 * of_int \<lfloor>angle / 360\<rfloor>"

definition resolveWinner_spec :: "rat \<Rightarrow> WheelItem list \<Rightarrow> WheelItem option" where
  "resolveWinner_spec angle segments =
    (let \<theta> = pointer_position angle
     in case find (\<lambda>k. arc_start segments k \<le> \<theta> \<and>
                        \<theta> < arc_start segments k + arc_width (segments ! k))
               [0..<length segments] of
          None \<Rightarrow> None
        | Some k \<Rightarrow> Some (segments ! k))"

text \<open>
  The same layout in the arithmetic of the code: the width of an arc is \<open>360 * weight / 100\<close>
  in doubles, the boundary after \<open>k\<close> arcs is the running double sum of the first \<open>k\<close>
  widths, from 0, and arc \<open>k\<close> is the half-open interval from boundary \<open>k\<close> to boundary
  \<open>k + 1\<close>. The winner at the pointer position \<open>\<theta>\<close> is the segment whose arc holds \<open>\<theta>\<close>.
\<close>

definition arc_boundary :: "WheelItem list \<Rightarrow> nat \<Rightarrow> rat" where
  "arc_boundary segments k =
    foldl (\<lambda>boundary segment.
             dadd boundary (ddiv (dmul 360 (of_int (probability segment))) 100))
      0 (take k segments)"

definition resolve_double_arcs :: "rat \<Rightarrow> WheelItem list \<Rightarrow> WheelItem option" where
  "resolve_double_arcs \<theta> segments =
    (case find (\<lambda>k. arc_boundary segments k \<le> \<theta> \<and> \<theta> < arc_boundary segments (Suc k))
            [0..<length segments] of
       None \<Rightarrow> None
     | Some k \<Rightarrow> Some (segments ! k))"

section \<open>Evaluation and list lemmas\<close>

text \<open>The floor of a quotient of numerals, over the rationals.\<close>

lemma floor_rat_numeral_div [simp]:
  "\<lfloor>numeral a / numeral b :: rat\<rfloor> = numeral a div numeral b"
  by (metis floor_divide_of_int_eq of_int_numeral)

lemma floor_rat_neg_numeral_div [simp]:
  "\<lfloor>- (numeral a / numeral b) :: rat\<rfloor> = - numeral a div numeral b"
  by (metis divide_minus_left floor_divide_of_int_eq of_int_neg_numeral of_int_numeral)

lemma floor_rat_one_div [simp]:
  "\<lfloor>1 / numeral b :: rat\<rfloor> = 1 div numeral b"
  by (metis floor_divide_of_int_eq of_int_1 of_int_numeral)

lemma floor_rat_neg_one_div [simp]:
  "\<lfloor>- (1 / numeral b) :: rat\<rfloor> = - 1 div numeral b"
  by (metis divide_minus_left floor_divide_of_int_eq of_int_1 of_int_minus of_int_numeral)

lemma ceiling_rat_numeral_div [simp]:
  "\<lceil>numeral a / numeral b :: rat\<rceil> = - (- numeral a div numeral b)"
  by (simp add: ceiling_def)

lemma ceiling_rat_neg_numeral_div [simp]:
  "\<lceil>- (numeral a / numeral b) :: rat\<rceil> = - (numeral a div numeral b)"
  by (simp add: ceiling_def)

lemma ceiling_rat_one_div [simp]:
  "\<lceil>1 / numeral b :: rat\<rceil> = - (- 1 div numeral b)"
  by (simp add: ceiling_def)

lemma ceiling_rat_neg_one_div [simp]:
  "\<lceil>- (1 / numeral b) :: rat\<rceil> = - (1 div numeral b)"
  by (simp add: ceiling_def)

lemmas toString_numeral [simp] = toString.simps [of "numeral k" for k]

lemmas bitlen_numeral [simp] = compute_bitlen [of "numeral k" for k] compute_bitlen [of 1]

text \<open>Rounding to a double is evaluated on numerals only.\<close>

lemmas double_defs =
  to_double_def [of 0] to_double_def [of 1] to_double_def [of "numeral a" for a]
  to_double_def [of "1 / numeral b" for b] to_double_def [of "numeral a / numeral b" for a b]
  exponent_def [of 1] exponent_def [of "numeral a" for a]
  exponent_def [of "1 / numeral b" for b] exponent_def [of "numeral a / numeral b" for a b]
  round_even_def [of 1] round_even_def [of "numeral a" for a]
  round_even_def [of "1 / numeral b" for b] round_even_def [of "numeral a / numeral b" for a b]
  ddiv_def dmul_def dadd_def

lemma foldl_plus_sum_list:
  "foldl (\<lambda>sum item. sum + f item) a xs = (a::int) + sum_list (map f xs)"
  by (induction xs arbitrary: a) simp_all

lemma reduce_sum_sum_list: "reduce_sum items = sum_list (map probability items)"
  by (simp add: reduce_sum_def foldl_plus_sum_list)

lemma find_map_comm: "find P (map f xs) = map_option f (find (\<lambda>x. P (f x)) xs)"
  by (induction xs) simp_all

text \<open>The equations that evaluate the operations on a concrete collection.\<close>

lemmas wheel_defs = addItem_def removeItem_def updateProbability_def toggleItemVisibility_def
  initial_items_def getVisibleItems_def calculateEqualShare_def merge_back_def
  normalizeProbabilities_def reduce_sum_def Math_round_def is_space_def is_space2_def
  is_space3_def determineWinner_def spinWheel_winner_def js_rem_def COLORS_def double_defs
  enumerate_eq_zip upt_rec[of 0] Let_def

lemmas spec_defs = arc_width_def arc_start_def pointer_position_def resolveWinner_spec_def

section \<open>The normalizer changes weights only\<close>

lemma normalize_fields:
  "map id_str (normalizeProbabilities items fixedId) = map id_str items \<and>
   map label (normalizeProbabilities items fixedId) = map label items \<and>
   map color (normalizeProbabilities items fixedId) = map color items \<and>
   map hidden (normalizeProbabilities items fixedId) = map hidden items"
  by (simp add: normalizeProbabilities_def Let_def o_def split: option.splits)

lemma normalize_length: "length (normalizeProbabilities items fixedId) = length items"
  using normalize_fields [of items fixedId] by (metis length_map)

text \<open>
  Claim C10. For every list and every optional fixed id, the normalizer returns the ids,
  the labels, the colours and the hidden flags of its input, in the same order (and so a
  list of the same length): the probability is the only field it writes.
\<close>

theorem normalizeProbabilities_frame:
  "map id_str (normalizeProbabilities items fixedId) = map id_str items \<and>
   map label (normalizeProbabilities items fixedId) = map label items \<and>
   map color (normalizeProbabilities items fixedId) = map color items \<and>
   map hidden (normalizeProbabilities items fixedId) = map hidden items \<and>
   length (normalizeProbabilities items fixedId) = length items"
proof -
  have "length (normalizeProbabilities items fixedId) = length items"
    by (rule normalize_length)
  then show ?thesis
    by (simp add: normalize_fields)
qed

section \<open>The normalizer and hidden items\<close>

text \<open>
  Claim C8 at the collection that \<open>addItem\<close> hands to the normalizer once item 2 is
  hidden. \<open>removeItem\<close> and \<open>toggleItemVisibility\<close> leave the weight of a hidden item as
  it is and bring the visible weights to 100, and \<open>determineWinner\<close> is given the visible
  items only. \<open>addItem\<close> and \<open>updateProbability\<close> pass the whole collection to the
  normalizer, which never reads the field \<open>hidden\<close>: the hidden item 2, which held 20,
  is rescaled to \<open>round(20 / 120 * 100) = 17\<close> by the normalizer alone and to
  \<open>round(20 / 130 * 100) = 15\<close> by \<open>addItem\<close>, and the five visible items are left with
  84 where the total over all six items is 99.
\<close>

theorem normalize_rescales_hidden:
  "map probability (filter hidden (toggleItemVisibility ''2'' initial_items)) = [20] \<and>
   map probability (filter hidden
     (normalizeProbabilities (toggleItemVisibility ''2'' initial_items) None)) = [17] \<and>
   map probability (filter hidden
     (addItem 1700000000000 ''Prize 6'' (toggleItemVisibility ''2'' initial_items))) = [15] \<and>
   map probability (getVisibleItems
     (addItem 1700000000000 ''Prize 6'' (toggleItemVisibility ''2'' initial_items))) =
     [19, 19, 19, 19, 8]"
proof -
  have "map probability (filter hidden (toggleItemVisibility ''2'' initial_items)) = [20]"
    by (simp add: wheel_defs)
  moreover have "map probability (filter hidden
      (normalizeProbabilities (toggleItemVisibility ''2'' initial_items) None)) = [17]"
    by (simp add: wheel_defs)
  moreover have "map probability (filter hidden
      (addItem 1700000000000 ''Prize 6'' (toggleItemVisibility ''2'' initial_items))) = [15]"
    by (simp add: wheel_defs)
  moreover have "map probability (getVisibleItems
      (addItem 1700000000000 ''Prize 6'' (toggleItemVisibility ''2'' initial_items))) =
      [19, 19, 19, 19, 8]"
    by (simp add: wheel_defs)
  ultimately show ?thesis by blast
qed

section \<open>Pinned mode on the initial collection\<close>

text \<open>
  Claim C7, as stated, fails. With five items of weight 20, \<open>updateProbability("3", 50)\<close>
  leaves the other four items a total of 52, not 50: each of them gets
  \<open>round(50 * (20 / 80)) = round(12.5) = 13\<close>, and no item takes the rounding back.
\<close>

theorem updateProbability_others_not_50:
  "sum_list (map probability (filter (\<lambda>item. id_str item \<noteq> ''3'')
     (updateProbability ''3'' 50 initial_items))) \<noteq> 50"
  by (simp add: wheel_defs)

text \<open>
  Claim C7, amended. Starting from five visible items of weight 20,
  \<open>updateProbability("3", 50)\<close> gives item 3 the weight 50 and each of the items 1, 2, 4
  and 5 the weight 13, so these four hold 52 together.
\<close>

theorem updateProbability_scenario:
  "map (\<lambda>item. (id_str item, probability item)) (updateProbability ''3'' 50 initial_items) =
     [(''1'', 13), (''2'', 13), (''3'', 50), (''4'', 13), (''5'', 13)]"
  by (simp add: wheel_defs)

section \<open>The winner is an item of the list\<close>

lemma winner_loop_mem: "winner_loop a c xs = Some w \<Longrightarrow> w \<in> set xs"
  by (induction xs arbitrary: c) (auto simp: Let_def split: if_splits)

lemma determineWinner_id:
  assumes "determineWinner a items = Some w"
  shows "id_str w \<in> set (map id_str items)"
proof -
  from assms have "w \<in> set (normalizeProbabilities items None)"
    by (auto simp: determineWinner_def Let_def dest: winner_loop_mem)
  then have "id_str w \<in> set (map id_str (normalizeProbabilities items None))"
    by simp
  then show ?thesis by (simp only: normalize_fields)
qed

lemma toggle_2_initial:
  "toggleItemVisibility ''2'' initial_items =
    [\<lparr>id_str = ''1'', label = ''Prize 1'', probability = 25, color = ''#FF6384'', hidden = False\<rparr>,
     \<lparr>id_str = ''2'', label = ''Prize 2'', probability = 20, color = ''#36A2EB'', hidden = True\<rparr>,
     \<lparr>id_str = ''3'', label = ''Prize 3'', probability = 25, color = ''#FFCE56'', hidden = False\<rparr>,
     \<lparr>id_str = ''4'', label = ''Prize 4'', probability = 25, color = ''#4BC0C0'', hidden = False\<rparr>,
     \<lparr>id_str = ''5'', label = ''Prize 5'', probability = 25, color = ''#9966FF'', hidden = False\<rparr>]"
  by (simp add: wheel_defs)

text \<open>
  Claim C9. Starting from five visible items of weight 20, \<open>toggleItemVisibility("2")\<close>
  gives the four visible items 1, 3, 4 and 5 the weight 25 each; item 2 keeps its weight
  20 and is hidden; it is not among the visible items that \<open>spinWheel\<close> hands to
  \<open>determineWinner\<close>, and no rotation makes it the winner.
\<close>

theorem toggle_hide_scenario:
  "toggleItemVisibility ''2'' initial_items =
    [\<lparr>id_str = ''1'', label = ''Prize 1'', probability = 25, color = ''#FF6384'', hidden = False\<rparr>,
     \<lparr>id_str = ''2'', label = ''Prize 2'', probability = 20, color = ''#36A2EB'', hidden = True\<rparr>,
     \<lparr>id_str = ''3'', label = ''Prize 3'', probability = 25, color = ''#FFCE56'', hidden = False\<rparr>,
     \<lparr>id_str = ''4'', label = ''Prize 4'', probability = 25, color = ''#4BC0C0'', hidden = False\<rparr>,
     \<lparr>id_str = ''5'', label = ''Prize 5'', probability = 25, color = ''#9966FF'', hidden = False\<rparr>] \<and>
   map id_str (getVisibleItems (toggleItemVisibility ''2'' initial_items)) =
     [''1'', ''3'', ''4'', ''5''] \<and>
   map_option id_str (spinWheel_winner a (toggleItemVisibility ''2'' initial_items)) \<noteq> Some ''2''"
proof -
  let ?s = "toggleItemVisibility ''2'' initial_items"
  have vis: "map id_str (getVisibleItems ?s) = [''1'', ''3'', ''4'', ''5'']"
    by (simp add: toggle_2_initial getVisibleItems_def)
  have "map_option id_str (spinWheel_winner a ?s) \<noteq> Some ''2''"
  proof
    assume "map_option id_str (spinWheel_winner a ?s) = Some ''2''"
    then obtain w where w: "spinWheel_winner a ?s = Some w" "id_str w = ''2''"
      by auto
    from w(1) have "determineWinner a (getVisibleItems ?s) = Some w"
      by (simp add: spinWheel_winner_def Let_def split: if_splits)
    then have "id_str w \<in> set (map id_str (getVisibleItems ?s))"
      by (rule determineWinner_id)
    then show False using w(2) by (simp add: vis)
  qed
  with vis show ?thesis
    by (simp add: toggle_2_initial)
qed

section \<open>Rounding to doubles\<close>

text \<open>The double nearest to \<open>x\<close> is within \<open>|x| / 2\<^sup>5\<^sup>3\<close> of \<open>x\<close>, or within half the
  least subnormal.\<close>

lemma round_even_close: "\<bar>rat_of_int (round_even r) - r\<bar> \<le> 1 / 2"
proof -
  have "rat_of_int \<lfloor>r\<rfloor> \<le> r" "r < rat_of_int \<lfloor>r\<rfloor> + 1"
    by linarith+
  then show ?thesis
    by (auto simp: round_even_def Let_def)
qed

lemma exponent_le:
  assumes "x \<noteq> 0"
  shows "2 powi exponent x \<le> \<bar>x\<bar>"
proof (cases "1 \<le> \<bar>x\<bar>")
  case True
  let ?n = "\<lfloor>\<bar>x\<bar>\<rfloor>"
  from True have n: "0 < ?n" by linarith
  from bitlen_bounds [OF n] have "2 ^ nat (bitlen ?n - 1) \<le> ?n" by simp
  then have "(2::rat) ^ nat (bitlen ?n - 1) \<le> rat_of_int ?n"
    by (metis of_int_le_iff of_int_numeral of_int_power)
  also have "rat_of_int ?n \<le> \<bar>x\<bar>" by linarith
  finally have le: "(2::rat) ^ nat (bitlen ?n - 1) \<le> \<bar>x\<bar>" .
  have "0 \<le> bitlen ?n - 1"
    using n by (simp add: bitlen_alt_def)
  then have "(2::rat) powi (bitlen ?n - 1) = 2 ^ nat (bitlen ?n - 1)"
    by (simp add: power_int_def)
  moreover have "exponent x = bitlen ?n - 1"
    using True by (simp add: exponent_def)
  ultimately show ?thesis
    using le by (simp only:)
next
  case False
  let ?c = "\<lceil>1 / \<bar>x\<bar>\<rceil>"
  let ?m = "bitlen (?c - 1)"
  from False assms have x: "0 < \<bar>x\<bar>" "\<bar>x\<bar> < 1" by simp_all
  then have "1 < 1 / \<bar>x\<bar>" by simp
  then have "1 < rat_of_int ?c" by linarith
  then have c: "0 < ?c - 1" by simp
  from bitlen_bounds [OF c] have "?c - 1 < 2 ^ nat ?m" by simp
  then have "?c \<le> 2 ^ nat ?m" by simp
  then have "rat_of_int ?c \<le> 2 ^ nat ?m"
    by (metis of_int_le_iff of_int_numeral of_int_power)
  moreover have "1 / \<bar>x\<bar> \<le> rat_of_int ?c" by linarith
  ultimately have "1 / \<bar>x\<bar> \<le> 2 ^ nat ?m" by linarith
  with x(1) have le: "1 / 2 ^ nat ?m \<le> \<bar>x\<bar>"
    by (simp add: field_simps)
  have "0 \<le> ?m" by (rule bitlen_nonneg)
  then have "(2::rat) powi (- ?m) = 1 / 2 ^ nat ?m"
    by (simp add: power_int_def inverse_eq_divide power_divide)
  moreover have "exponent x = - ?m"
    using False by (simp add: exponent_def)
  ultimately show ?thesis
    using le by (simp only:)
qed

lemma to_double_error: "\<bar>to_double x - x\<bar> \<le> \<bar>x\<bar> / 2 ^ 53 + 1 / 2 ^ 60"
proof (cases "x = 0")
  case True
  then show ?thesis by (simp add: to_double_def)
next
  case False
  let ?e = "exponent x"
  let ?ulp = "(2::rat) powi (max ?e (- 1022) - 52)"
  have pos: "0 < ?ulp" by simp
  have "to_double x - x = (rat_of_int (round_even (x / ?ulp)) - x / ?ulp) * ?ulp"
    using False pos by (simp add: to_double_def Let_def field_simps)
  then have "\<bar>to_double x - x\<bar> = \<bar>rat_of_int (round_even (x / ?ulp)) - x / ?ulp\<bar> * ?ulp"
    using pos by (simp add: abs_mult)
  also have "\<dots> \<le> 1 / 2 * ?ulp"
    using round_even_close [of "x / ?ulp"] pos by (intro mult_right_mono) simp_all
  finally have half: "\<bar>to_double x - x\<bar> \<le> ?ulp / 2" by simp
  have "?ulp \<le> \<bar>x\<bar> / 2 ^ 52 + 1 / 2 ^ 59"
  proof (cases "- 1022 \<le> ?e")
    case True
    then have "2 powi ?e = ?ulp * 2 ^ 52"
      using power_int_add [of "2::rat" "?e - 52" 52] by (simp add: max_def)
    then have "?ulp = 2 powi ?e / 2 ^ 52"
      by simp
    also have "\<dots> \<le> \<bar>x\<bar> / 2 ^ 52"
      using exponent_le [OF False] by (simp add: divide_right_mono)
    finally show ?thesis by simp
  next
    case False
    then have "?ulp = 2 powi (- 1074)" by (simp add: max_def)
    also have "\<dots> = 1 / 2 ^ 1074"
      by (simp add: power_int_def inverse_eq_divide power_divide del: power_numeral)
    also have "\<dots> \<le> 1 / 2 ^ 59"
    proof -
      have "(2::rat) ^ 59 \<le> 2 ^ 1074"
        by (rule power_increasing) simp_all
      then show ?thesis
        by (intro divide_left_mono) (simp_all del: power_numeral)
    qed
    finally have "?ulp \<le> 1 / 2 ^ 59" .
    moreover have "0 \<le> \<bar>x\<bar> / 2 ^ 52" by simp
    ultimately show ?thesis by linarith
  qed
  with half show ?thesis by simp
qed

text \<open>A share of at most 100, computed in doubles, is within a quarter of its exact value.\<close>

lemma scaled_share_close:
  assumes "0 \<le> c" "c \<le> 100" "0 \<le> y" "y \<le> 1"
  shows "\<bar>to_double (c * to_double y) - c * y\<bar> \<le> 1 / 4"
proof -
  let ?y' = "to_double y"
  let ?z = "c * ?y'"
  have "\<bar>?y' - y\<bar> \<le> \<bar>y\<bar> / 2 ^ 53 + 1 / 2 ^ 60"
    by (rule to_double_error)
  with assms(3,4) have d1: "\<bar>?y' - y\<bar> \<le> 1 / 2 ^ 52"
    by simp
  have "\<bar>?z - c * y\<bar> = c * \<bar>?y' - y\<bar>"
    using assms(1) by (simp add: abs_mult flip: right_diff_distrib)
  also have "\<dots> \<le> 100 * (1 / 2 ^ 52)"
    using assms(1,2) d1 by (intro mult_mono) simp_all
  finally have d2: "\<bar>?z - c * y\<bar> \<le> 100 / 2 ^ 52" by simp
  have "c * y \<le> 100 * 1"
    using assms by (intro mult_mono) simp_all
  moreover have "0 \<le> c * y"
    using assms by simp
  moreover have "100 / 2 ^ 52 \<le> (1::rat)" by simp
  ultimately have "\<bar>?z\<bar> \<le> 101"
    using d2 by linarith
  moreover have "\<bar>to_double ?z - ?z\<bar> \<le> \<bar>?z\<bar> / 2 ^ 53 + 1 / 2 ^ 60"
    by (rule to_double_error)
  ultimately have d3: "\<bar>to_double ?z - ?z\<bar> \<le> 101 / 2 ^ 53 + 1 / 2 ^ 60"
    by simp
  have "100 / 2 ^ 52 + (101 / 2 ^ 53 + 1 / 2 ^ 60) \<le> (1 / 4 :: rat)" by simp
  with d2 d3 show ?thesis by linarith
qed

lemma share_close:
  assumes "0 \<le> c" "c \<le> 100" "1 \<le> p" "p \<le> T"
  shows "\<bar>dmul (rat_of_int c) (ddiv (rat_of_int p) (rat_of_int T)) -
      rat_of_int c * (rat_of_int p / rat_of_int T)\<bar> \<le> 1 / 4"
  unfolding dmul_def ddiv_def
  using assms by (intro scaled_share_close) simp_all

text \<open>A weight that is rounded and clamped is within 1 of its exact share.\<close>

lemma round_clamp_bounds:
  assumes "0 \<le> x" and "\<bar>x' - x\<bar> \<le> 1 / 4"
  shows "x - 1 \<le> of_int (max 1 (Math_round x')) \<and> of_int (max 1 (Math_round x')) \<le> x + 1"
proof -
  have lo: "x' + 1 / 2 < of_int (Math_round x') + 1" and hi: "of_int (Math_round x') \<le> x' + 1 / 2"
    unfolding Math_round_def by linarith+
  from assms(2) have near: "x' \<le> x + 1 / 4" "x - 1 / 4 \<le> x'"
    by linarith+
  show ?thesis
  proof (cases "1 \<le> Math_round x'")
    case True
    then have m: "max 1 (Math_round x') = Math_round x'" by simp
    show ?thesis
      unfolding m using lo hi near by (intro conjI) linarith+
  next
    case False
    then have "Math_round x' \<le> 0" by simp
    then have z: "rat_of_int (Math_round x') \<le> 0" by simp
    from False have m: "max 1 (Math_round x') = 1" by simp
    show ?thesis
      unfolding m using lo z near assms(1) by (intro conjI) (simp, linarith)+
  qed
qed

lemma sum_round_clamp:
  assumes "\<forall>x\<in>set xs. 0 \<le> f x \<and> \<bar>g x - f x\<bar> \<le> 1 / 4"
  shows "sum_list (map f xs) - of_nat (length xs)
           \<le> of_int (sum_list (map (\<lambda>x. max 1 (Math_round (g x))) xs)) \<and>
         of_int (sum_list (map (\<lambda>x. max 1 (Math_round (g x))) xs))
           \<le> sum_list (map f xs) + of_nat (length xs)"
  using assms
proof (induction xs)
  case Nil
  then show ?case by simp
next
  case (Cons x xs)
  from Cons.prems have "0 \<le> f x" "\<bar>g x - f x\<bar> \<le> 1 / 4" by simp_all
  from round_clamp_bounds [OF this] Cons.IH Cons.prems
  show ?case by (simp add: field_simps)
qed

lemma share_total:
  assumes "T \<noteq> 0"
  shows "sum_list (map (\<lambda>x. c * (rat_of_int (p x) / rat_of_int T)) xs) =
    c * rat_of_int (sum_list (map p xs)) / rat_of_int T"
  using assms by (induction xs) (simp_all add: field_simps)

lemma member_le_total:
  assumes "\<forall>x\<in>set xs. 1 \<le> p x" and "x \<in> set xs"
  shows "p x \<le> (sum_list (map p xs) :: int)"
  using assms
proof (induction xs)
  case Nil
  then show ?case by simp
next
  case (Cons y ys)
  have "0 \<le> sum_list (map p ys)"
    using Cons.prems(1) by (intro sum_list_nonneg) auto
  moreover have "1 \<le> p y" using Cons.prems(1) by simp
  ultimately show ?case
    using Cons by auto
qed

text \<open>Rescaling positive weights to the total \<open>c\<close>, each share computed in doubles, rounded
  and clamped.\<close>

lemma rescale_total:
  assumes "\<forall>x\<in>set xs. 1 \<le> p x" and "xs \<noteq> []" and "0 \<le> c" and "c \<le> 100"
    and "T = sum_list (map p xs)"
  shows "\<bar>sum_list (map (\<lambda>x. max 1 (Math_round
        (dmul (rat_of_int c) (ddiv (rat_of_int (p x)) (rat_of_int T))))) xs) - c\<bar>
    \<le> int (length xs)"
proof -
  have "int (length xs) \<le> sum_list (map p xs)"
    using assms(1) by (induction xs) auto
  with assms(2,5) have T: "0 < T" by (cases xs) auto
  let ?f = "\<lambda>x. rat_of_int c * (rat_of_int (p x) / rat_of_int T)"
  let ?g = "\<lambda>x. dmul (rat_of_int c) (ddiv (rat_of_int (p x)) (rat_of_int T))"
  have close: "\<forall>x\<in>set xs. 0 \<le> ?f x \<and> \<bar>?g x - ?f x\<bar> \<le> 1 / 4"
  proof
    fix x assume x: "x \<in> set xs"
    with assms(1) have p: "1 \<le> p x" by simp
    from member_le_total [OF assms(1) x] assms(5) have "p x \<le> T" by simp
    from share_close [OF assms(3,4) p this] assms(3) p T
    show "0 \<le> ?f x \<and> \<bar>?g x - ?f x\<bar> \<le> 1 / 4" by simp
  qed
  have "sum_list (map ?f xs) = rat_of_int c * rat_of_int (sum_list (map p xs)) / rat_of_int T"
    using T by (intro share_total) simp
  also have "\<dots> = rat_of_int c"
    using T assms(5) by simp
  finally have tot: "sum_list (map ?f xs) = rat_of_int c" .
  let ?S = "sum_list (map (\<lambda>x. max 1 (Math_round (?g x))) xs)"
  from sum_round_clamp [of xs ?f ?g, OF close] tot
  have "rat_of_int c - of_nat (length xs) \<le> rat_of_int ?S"
    and "rat_of_int ?S \<le> rat_of_int c + of_nat (length xs)"
    by simp_all
  then have "rat_of_int (c - int (length xs)) \<le> rat_of_int ?S"
    and "rat_of_int ?S \<le> rat_of_int (c + int (length xs))"
    by simp_all
  then have "c - int (length xs) \<le> ?S" "?S \<le> c + int (length xs)"
    by (simp_all only: of_int_le_iff)
  then show ?thesis by simp
qed

lemma dmul_commute: "dmul a b = dmul b a"
  by (simp add: dmul_def mult.commute)

section \<open>The resolver and the layout of the arcs\<close>

lemma find_map_Suc: "find P (map Suc ks) = map_option Suc (find (\<lambda>k. P (Suc k)) ks)"
  by (simp add: find_map_comm)

text \<open>The loop with its running angle finds the first index whose arc, between two
  successive running sums, holds the pointer.\<close>

lemma winner_loop_arcs:
  "winner_loop \<theta> c xs =
    (case find (\<lambda>k.
        foldl (\<lambda>boundary segment.
                 dadd boundary (ddiv (dmul 360 (of_int (probability segment))) 100))
          c (take k xs) \<le> \<theta> \<and>
        \<theta> < foldl (\<lambda>boundary segment.
                 dadd boundary (ddiv (dmul 360 (of_int (probability segment))) 100))
          c (take (Suc k) xs))
       [0..<length xs] of
       None \<Rightarrow> None
     | Some k \<Rightarrow> Some (xs ! k))"
proof (induction xs arbitrary: c)
  case Nil
  then show ?case by simp
next
  case (Cons x xs)
  have upt: "[0..<length (x # xs)] = 0 # map Suc [0..<length xs]"
    by (simp add: upt_conv_Cons map_Suc_upt del: upt_Suc)
  show ?case
    unfolding upt
    by (simp add: Let_def Cons.IH find_map_Suc option.case_eq_if option.map_sel del: upt_Suc)
qed

lemma determineWinner_arcs:
  "determineWinner currentRotation items =
    resolve_double_arcs (js_rem currentRotation 360) (normalizeProbabilities items None)"
  by (simp add: determineWinner_def resolve_double_arcs_def arc_boundary_def Let_def
      winner_loop_arcs del: take_Suc_conv_app_nth)

lemma js_rem_nonneg: "0 \<le> a \<Longrightarrow> js_rem a 360 = pointer_position a"
  by (simp add: js_rem_def pointer_position_def)

lemma pointer_position_range: "0 \<le> pointer_position a \<and> pointer_position a < 360"
proof -
  have "of_int \<lfloor>a / 360\<rfloor> \<le> a / 360" "a / 360 < of_int \<lfloor>a / 360\<rfloor> + 1"
    by linarith+
  then show ?thesis
    by (simp add: pointer_position_def field_simps)
qed

text \<open>Weights that are at least 1 and sum to 100 are left as they are.\<close>

lemma round_share_100:
  assumes "1 \<le> p" "p \<le> 100"
  shows "Math_round (dmul (ddiv (rat_of_int p) 100) 100) = p"
proof -
  have "\<bar>dmul (rat_of_int 100) (ddiv (rat_of_int p) (rat_of_int 100)) -
      rat_of_int 100 * (rat_of_int p / rat_of_int 100)\<bar> \<le> 1 / 4"
    using assms by (intro share_close) simp_all
  then have "\<bar>dmul (ddiv (rat_of_int p) 100) 100 - rat_of_int p\<bar> \<le> 1 / 4"
    by (simp add: dmul_commute [of _ 100])
  then have "rat_of_int p \<le> dmul (ddiv (rat_of_int p) 100) 100 + 1 / 2"
    and "dmul (ddiv (rat_of_int p) 100) 100 + 1 / 2 < rat_of_int p + 1"
    by linarith+
  then show ?thesis
    unfolding Math_round_def by (intro floor_unique)
qed

lemma normalize_id:
  assumes "\<forall>item\<in>set items. 1 \<le> probability item"
    and "sum_list (map probability items) = 100"
  shows "normalizeProbabilities items None = items"
proof -
  have safe: "map (\<lambda>item. item\<lparr>probability := max 1 (probability item)\<rparr>) items = items"
    using assms(1) by (simp add: map_idI max_def)
  have "map (\<lambda>item. item\<lparr>probability :=
           max 1 (Math_round (dmul (ddiv (of_int (probability item)) (of_int 100)) 100))\<rparr>) items
      = items"
  proof (rule map_idI)
    fix item assume item: "item \<in> set items"
    with assms(1) have p: "1 \<le> probability item" by simp
    from member_le_total [of items probability item, OF assms(1) item] assms(2)
    have "probability item \<le> 100" by simp
    from round_share_100 [OF p this] p
    show "item\<lparr>probability :=
        max 1 (Math_round (dmul (ddiv (of_int (probability item)) (of_int 100)) 100))\<rparr> = item"
      by simp
  qed
  then show ?thesis
    using assms(2) by (simp add: normalizeProbabilities_def Let_def safe reduce_sum_sum_list)
qed

text \<open>
  Claim C2, as stated, fails. First, \<open>determineWinner\<close> normalizes the items it is given
  before it lays them out, so the arcs have the width of the normalized weight, not of
  the stored one: after \<open>toggleItemVisibility("2")\<close> and an addition the visible items
  hold 19, 19, 19, 19 and 8; at the rotation 2230, pointer position 70, the arcs of the
  stored weights make item 3 the winner (its arc is \<open>[68.4, 136.8)\<close>), and the code
  returns item 1, whose normalized weight 23 gives the arc \<open>[0, 82.8)\<close>. Second, the
  boundaries are running sums of doubles: after \<open>updateProbability("4", 3)\<close> the weights
  are 24, 24, 24, 3 and 24, the boundary between item 4 and item 5 is 270 and the code
  computes \<open>86.4 + 86.4 + 86.4 + 10.8 = 270.00000000000006\<close>, so at the rotation 2070,
  pointer position 270, item 4 wins where the interval \<open>[270, 356.4)\<close> is that of item 5.
  Both rotations are in \<open>[1800, 3600)\<close>, the range of a first spin.
\<close>

theorem determineWinner_not_spec_layout:
  "map_option id_str (determineWinner 2230 (getVisibleItems
     (run [ToggleVisibility ''2'', AddSegment 1700000000000 ''Prize 6''] initial_items))) = Some ''1'' \<and>
   map_option id_str (resolveWinner_spec 2230 (getVisibleItems
     (run [ToggleVisibility ''2'', AddSegment 1700000000000 ''Prize 6''] initial_items))) = Some ''3'' \<and>
   map_option id_str (determineWinner 2070 (getVisibleItems
     (run [SetWeight ''4'' 3] initial_items))) = Some ''4'' \<and>
   map_option id_str (resolveWinner_spec 2070 (getVisibleItems
     (run [SetWeight ''4'' 3] initial_items))) = Some ''5''"
proof -
  have "map_option id_str (determineWinner 2230 (getVisibleItems
     (run [ToggleVisibility ''2'', AddSegment 1700000000000 ''Prize 6''] initial_items))) = Some ''1''"
    by (simp add: wheel_defs)
  moreover have "map_option id_str (resolveWinner_spec 2230 (getVisibleItems
     (run [ToggleVisibility ''2'', AddSegment 1700000000000 ''Prize 6''] initial_items))) = Some ''3''"
    by (simp add: wheel_defs spec_defs)
  moreover have "map_option id_str (determineWinner 2070 (getVisibleItems
     (run [SetWeight ''4'' 3] initial_items))) = Some ''4''"
    by (simp add: wheel_defs)
  moreover have "map_option id_str (resolveWinner_spec 2070 (getVisibleItems
     (run [SetWeight ''4'' 3] initial_items))) = Some ''5''"
    by (simp add: wheel_defs spec_defs)
  ultimately show ?thesis by blast
qed

text \<open>
  Claim C2, amended. For every rotation, \<open>determineWinner\<close> takes \<open>rotation % 360\<close> as the
  pointer position, which for a rotation that is not negative is the rotation modulo 360,
  in \<open>[0, 360)\<close>. It normalizes the items it is given in proportional mode, which changes
  nothing when the weights are at least 1 and sum to 100, and lays the normalized items
  out in list order as contiguous arcs from 0: the width of an arc is \<open>360 * w / 100\<close>
  computed in doubles for the normalized weight \<open>w\<close>, and each boundary is the double sum
  of the boundary before and the width. It returns the normalized item whose half-open
  arc, from its boundary to the next, holds the pointer position, and no winner when no
  arc does.
\<close>

theorem determineWinner_resolves:
  "determineWinner currentRotation items =
     resolve_double_arcs (js_rem currentRotation 360) (normalizeProbabilities items None) \<and>
   (0 \<le> currentRotation \<longrightarrow>
     js_rem currentRotation 360 = pointer_position currentRotation \<and>
     0 \<le> js_rem currentRotation 360 \<and> js_rem currentRotation 360 < 360) \<and>
   ((\<forall>item\<in>set items. 1 \<le> probability item) \<and> sum_list (map probability items) = 100
     \<longrightarrow> normalizeProbabilities items None = items)"
proof -
  have "js_rem currentRotation 360 = pointer_position currentRotation \<and>
      0 \<le> js_rem currentRotation 360 \<and> js_rem currentRotation 360 < 360"
    if "0 \<le> currentRotation"
    using pointer_position_range [of currentRotation] js_rem_nonneg [OF that] by simp
  moreover have "normalizeProbabilities items None = items"
    if "(\<forall>item\<in>set items. 1 \<le> probability item) \<and> sum_list (map probability items) = 100"
    using that normalize_id by blast
  ultimately show ?thesis
    using determineWinner_arcs [of currentRotation items] by blast
qed

theorem determineWinner_resolves_witness:
  "(0::rat) \<le> 2070 \<and> list_all (\<lambda>item. 1 \<le> probability item) initial_items \<and>
   sum_list (map probability initial_items) = 100 \<and>
   js_rem 2070 360 = 270 \<and>
   determineWinner 2070 initial_items = resolve_double_arcs 270 initial_items \<and>
   map (arc_boundary initial_items) [0, 1, 2, 3, 4, 5] = [0, 72, 144, 216, 288, 360] \<and>
   map_option id_str (resolve_double_arcs 270 initial_items) = Some ''4''"
proof -
  have h: "(0::rat) \<le> 2070" by simp
  have pre: "(\<forall>item\<in>set initial_items. 1 \<le> probability item) \<and>
      sum_list (map probability initial_items) = 100"
    by (simp add: initial_items_def)
  have r: "js_rem 2070 360 = 270"
    by (simp add: js_rem_def)
  from determineWinner_resolves [of 2070 initial_items] pre
  have "determineWinner 2070 initial_items =
      resolve_double_arcs (js_rem 2070 360) initial_items"
    by simp
  then have "determineWinner 2070 initial_items = resolve_double_arcs 270 initial_items"
    by (simp only: r)
  moreover have "map (arc_boundary initial_items) [0, 1, 2, 3, 4, 5] =
      [0, 72, 144, 216, 288, 360]"
    by (simp add: arc_boundary_def initial_items_def double_defs Let_def numeral_eq_Suc)
  moreover have "map_option id_str (resolve_double_arcs 270 initial_items) = Some ''4''"
    by (simp add: resolve_double_arcs_def arc_boundary_def initial_items_def double_defs
        Let_def upt_rec [of 0])
  ultimately show ?thesis
    using h pre r by (simp add: list_all_iff)
qed

section \<open>Equal-share redistribution\<close>

lemma calc_length: "length (calculateEqualShare vis) = length vis"
  by (simp add: calculateEqualShare_def Let_def)

lemma calc_nth:
  assumes "k < length vis"
  shows "calculateEqualShare vis ! k = (vis ! k)\<lparr>probability :=
     (if Suc k = length vis then 100 - (100 div int (length vis)) * (int (length vis) - 1)
      else 100 div int (length vis))\<rparr>"
proof -
  have "int k = int (length vis) - 1 \<longleftrightarrow> Suc k = length vis"
    using assms by auto
  then show ?thesis
    using assms by (simp add: calculateEqualShare_def Let_def nth_enumerate_eq)
qed

lemma calc_fields:
  "map id_str (calculateEqualShare vis) = map id_str vis \<and>
   map hidden (calculateEqualShare vis) = map hidden vis"
  by (auto intro!: nth_equalityI simp: calc_length calc_nth)

lemma calc_probability:
  assumes "vis \<noteq> []"
  shows "map probability (calculateEqualShare vis) =
    replicate (length vis - 1) (100 div int (length vis)) @
      [100 - (100 div int (length vis)) * (int (length vis) - 1)]"
proof (rule nth_equalityI)
  show "length (map probability (calculateEqualShare vis)) =
    length (replicate (length vis - 1) (100 div int (length vis)) @
      [100 - (100 div int (length vis)) * (int (length vis) - 1)])"
    using assms by (cases vis) (simp_all add: calc_length)
next
  fix k assume "k < length (map probability (calculateEqualShare vis))"
  then have k: "k < length vis" by (simp add: calc_length)
  then show "map probability (calculateEqualShare vis) ! k =
    (replicate (length vis - 1) (100 div int (length vis)) @
      [100 - (100 div int (length vis)) * (int (length vis) - 1)]) ! k"
    by (auto simp: calc_length calc_nth nth_append)
qed

lemma equal_share_sum:
  assumes "0 < n"
  shows "sum_list (replicate (n - 1) (100 div int n) @ [100 - (100 div int n) * (int n - 1)]) = 100"
proof -
  have "int (n - 1) = int n - 1" using assms by simp
  then show ?thesis by (simp add: sum_list_replicate)
qed

lemma find_distinct_nth:
  assumes "distinct (map f ys)" "k < length ys"
  shows "find (\<lambda>y. f y = f (ys ! k)) ys = Some (ys ! k)"
  using assms
proof (induction ys arbitrary: k)
  case Nil
  then show ?case by simp
next
  case (Cons y ys)
  show ?case
  proof (cases k)
    case 0
    then show ?thesis by simp
  next
    case (Suc j)
    with Cons.prems have j: "j < length ys" and d: "distinct (map f ys)" and
      ny: "f y \<notin> set (map f ys)" by auto
    from j ny have "f y \<noteq> f (ys ! j)" by (metis nth_map nth_mem length_map)
    with Cons.IH [OF d j] Suc show ?thesis by simp
  qed
qed

lemma find_Some_P: "find P xs = Some x \<Longrightarrow> P x \<and> x \<in> set xs"
  by (induction xs) (auto split: if_splits)

lemma merge_back_length: "length (merge_back nv upd) = length upd"
  by (simp add: merge_back_def)

lemma merge_back_ids: "map id_str (merge_back nv upd) = map id_str upd"
  by (auto simp: merge_back_def split: option.splits dest: find_Some_P)

lemma merge_back_hidden:
  assumes "\<forall>ni\<in>set nv. \<not> hidden ni"
  shows "filter hidden (merge_back nv upd) = filter hidden upd"
  using assms
  by (induction upd) (auto simp: merge_back_def split: option.splits dest: find_Some_P)

lemma merge_back_visible:
  assumes "\<forall>ni\<in>set nv. \<not> hidden ni"
  shows "getVisibleItems (merge_back nv upd) =
    map (\<lambda>item. case find (\<lambda>ni. id_str ni = id_str item) nv of Some ni \<Rightarrow> ni | None \<Rightarrow> item)
      (getVisibleItems upd)"
  using assms
  by (induction upd)
    (auto simp: merge_back_def getVisibleItems_def split: option.splits dest: find_Some_P)

lemma calc_not_hidden:
  "\<forall>ni\<in>set (calculateEqualShare (getVisibleItems upd)). \<not> hidden ni"
proof -
  have "set (map hidden (calculateEqualShare (getVisibleItems upd))) =
      set (map hidden (getVisibleItems upd))"
    by (simp only: calc_fields)
  then have "hidden ` set (calculateEqualShare (getVisibleItems upd)) \<subseteq> {False}"
    by (auto simp: getVisibleItems_def)
  then show ?thesis by blast
qed

lemma equal_share_visible:
  assumes "distinct (map id_str (getVisibleItems upd))"
  shows "getVisibleItems (merge_back (calculateEqualShare (getVisibleItems upd)) upd) =
    calculateEqualShare (getVisibleItems upd)"
proof -
  let ?vis = "getVisibleItems upd"
  let ?nv = "calculateEqualShare ?vis"
  have d: "distinct (map id_str ?nv)"
    using assms by (simp only: calc_fields)
  have "map (\<lambda>item. case find (\<lambda>ni. id_str ni = id_str item) ?nv of
                      Some ni \<Rightarrow> ni | None \<Rightarrow> item) ?vis = ?nv"
  proof (rule nth_equalityI)
    show "length (map (\<lambda>item. case find (\<lambda>ni. id_str ni = id_str item) ?nv of
                      Some ni \<Rightarrow> ni | None \<Rightarrow> item) ?vis) = length ?nv"
      by (simp add: calc_length)
  next
    fix k
    assume "k < length (map (\<lambda>item. case find (\<lambda>ni. id_str ni = id_str item) ?nv of
                      Some ni \<Rightarrow> ni | None \<Rightarrow> item) ?vis)"
    then have k: "k < length ?vis" by simp
    then have k': "k < length ?nv" by (simp add: calc_length)
    have "id_str (?nv ! k) = id_str (?vis ! k)"
      using k by (simp add: calc_nth)
    with find_distinct_nth [OF d k']
    have "find (\<lambda>ni. id_str ni = id_str (?vis ! k)) ?nv = Some (?nv ! k)"
      by simp
    then show "map (\<lambda>item. case find (\<lambda>ni. id_str ni = id_str item) ?nv of
                      Some ni \<Rightarrow> ni | None \<Rightarrow> item) ?vis ! k = ?nv ! k"
      using k by simp
  qed
  then show ?thesis
    by (simp add: merge_back_visible [OF calc_not_hidden])
qed

text \<open>The weights of the visible items after an equal-share redistribution.\<close>

lemma equal_share_probabilities:
  assumes "distinct (map id_str (getVisibleItems upd))" "getVisibleItems upd \<noteq> []"
  shows "map probability
      (getVisibleItems (merge_back (calculateEqualShare (getVisibleItems upd)) upd)) =
    replicate (length (getVisibleItems upd) - 1) (100 div int (length (getVisibleItems upd))) @
      [100 - (100 div int (length (getVisibleItems upd))) *
         (int (length (getVisibleItems upd)) - 1)]"
  using assms by (simp add: equal_share_visible calc_probability)

lemma removeItem_weights:
  assumes "2 < length items" and "distinct (map id_str items)"
    and "getVisibleItems (filter (\<lambda>item. id_str item \<noteq> i) items) \<noteq> []"
  shows "map probability (getVisibleItems (removeItem i items)) =
      replicate (length (getVisibleItems (filter (\<lambda>item. id_str item \<noteq> i) items)) - 1)
        (100 div int (length (getVisibleItems (filter (\<lambda>item. id_str item \<noteq> i) items)))) @
      [100 - (100 div int (length (getVisibleItems (filter (\<lambda>item. id_str item \<noteq> i) items)))) *
         (int (length (getVisibleItems (filter (\<lambda>item. id_str item \<noteq> i) items))) - 1)]"
proof -
  let ?upd = "filter (\<lambda>item. id_str item \<noteq> i) items"
  have "distinct (map id_str (getVisibleItems ?upd))"
    using assms(2) by (simp add: getVisibleItems_def distinct_map_filter)
  from equal_share_probabilities [OF this assms(3)] assms(1)
  show ?thesis by (simp add: removeItem_def Let_def)
qed


lemma removeItem_hidden:
  "filter hidden (removeItem i items) =
   (if length items \<le> 2 then filter hidden items
    else filter hidden (filter (\<lambda>item. id_str item \<noteq> i) items))"
  by (simp add: removeItem_def Let_def merge_back_hidden [OF calc_not_hidden])


text \<open>
  Claim C5, as stated, fails when no item is visible after the removal. Hiding all five
  initial items and removing item 1 leaves four hidden items and no visible one: the
  visible total is 0, not 100.
\<close>

theorem removeItem_all_hidden:
  "2 < length (run [ToggleVisibility ''1'', ToggleVisibility ''2'', ToggleVisibility ''3'',
         ToggleVisibility ''4'', ToggleVisibility ''5''] initial_items) \<and>
   getVisibleItems (removeItem ''1''
     (run [ToggleVisibility ''1'', ToggleVisibility ''2'', ToggleVisibility ''3'',
         ToggleVisibility ''4'', ToggleVisibility ''5''] initial_items)) = [] \<and>
   sum_list (map probability (getVisibleItems (removeItem ''1''
     (run [ToggleVisibility ''1'', ToggleVisibility ''2'', ToggleVisibility ''3'',
         ToggleVisibility ''4'', ToggleVisibility ''5''] initial_items)))) \<noteq> 100"
  by (simp add: wheel_defs)

text \<open>
  Claim C5, amended. For every collection of more than 2 items with pairwise distinct
  ids, in which \<open>N > 0\<close> visible items remain once the items of the given id are
  deleted, after \<open>removeItem\<close> the visible items hold, in list order, \<open>N - 1\<close> times
  \<open>floor(100 / N)\<close> and last \<open>100 - floor(100 / N) * (N - 1)\<close>; their total is exactly
  100, and the hidden items that remain are untouched.
\<close>

theorem removeItem_equal_share:
  assumes "2 < length items" and "distinct (map id_str items)"
    and "N = length (getVisibleItems (filter (\<lambda>item. id_str item \<noteq> i) items))"
    and "0 < N"
  shows "map probability (getVisibleItems (removeItem i items)) =
      replicate (N - 1) (100 div int N) @ [100 - (100 div int N) * (int N - 1)] \<and>
    sum_list (map probability (getVisibleItems (removeItem i items))) = 100 \<and>
    filter hidden (removeItem i items) = filter hidden (filter (\<lambda>item. id_str item \<noteq> i) items)"
proof -
  have ne: "getVisibleItems (filter (\<lambda>item. id_str item \<noteq> i) items) \<noteq> []"
    using assms(3,4) by auto
  have w: "map probability (getVisibleItems (removeItem i items)) =
      replicate (N - 1) (100 div int N) @ [100 - (100 div int N) * (int N - 1)]"
    using removeItem_weights [OF assms(1,2) ne] by (simp only: assms(3))
  have "sum_list (map probability (getVisibleItems (removeItem i items))) = 100"
    by (simp only: w equal_share_sum [OF assms(4)])
  moreover have "filter hidden (removeItem i items) =
      filter hidden (filter (\<lambda>item. id_str item \<noteq> i) items)"
    using assms(1) by (simp add: removeItem_hidden)
  ultimately show ?thesis using w by simp
qed

theorem removeItem_equal_share_witness:
  "2 < length (toggleItemVisibility ''2'' initial_items) \<and>
   distinct (map id_str (toggleItemVisibility ''2'' initial_items)) \<and>
   (3::nat) = length (getVisibleItems (filter (\<lambda>item. id_str item \<noteq> ''1'')
       (toggleItemVisibility ''2'' initial_items))) \<and>
   map probability (getVisibleItems (removeItem ''1'' (toggleItemVisibility ''2'' initial_items))) =
     [33, 33, 34] \<and>
   map probability (filter hidden (removeItem ''1'' (toggleItemVisibility ''2'' initial_items))) =
     [20]"
proof -
  let ?s = "toggleItemVisibility ''2'' initial_items"
  have a: "2 < length ?s" "distinct (map id_str ?s)"
    by (simp_all add: toggle_2_initial)
  have n: "(3::nat) = length (getVisibleItems (filter (\<lambda>item. id_str item \<noteq> ''1'') ?s))"
    by (simp add: toggle_2_initial getVisibleItems_def)
  have h: "map probability (filter hidden (filter (\<lambda>item. id_str item \<noteq> ''1'') ?s)) = [20]"
    by (simp add: toggle_2_initial)
  have r: "replicate (3 - 1) (100 div int 3) @ [100 - (100 div int 3) * (int 3 - 1)] = [33, 33, 34]"
    by (simp add: numeral_eq_Suc)
  have p: "0 < (3::nat)" by simp
  note t = removeItem_equal_share [OF a n p, unfolded r]
  from t have "map probability (filter hidden (removeItem ''1'' ?s)) = [20]"
    using h by (simp only:)
  with t a n show ?thesis by blast
qed

section \<open>More than 100 visible items\<close>

text \<open>The decimal digits determine the number: ids made from different clock values
  differ.\<close>

lemma digit_index:
  assumes "d < 10"
  shows "length (takeWhile (\<lambda>x. x \<noteq> ''0123456789'' ! d) ''0123456789'') = d"
proof -
  from assms have "d = 0 \<or> d = 1 \<or> d = 2 \<or> d = 3 \<or> d = 4 \<or> d = 5 \<or> d = 6 \<or> d = 7 \<or> d = 8 \<or> d = 9"
    by arith
  then show ?thesis by (elim disjE) simp_all
qed

lemma toString_inverse:
  "foldl (\<lambda>a c. 10 * a + length (takeWhile (\<lambda>x. x \<noteq> c) ''0123456789'')) 0 (toString n) = n"
proof (induction n rule: toString.induct)
  case (1 n)
  let ?f = "\<lambda>a c. 10 * a + length (takeWhile (\<lambda>x. x \<noteq> c) ''0123456789'')"
  show ?case
  proof (cases "n < 10")
    case True
    have "toString n = [''0123456789'' ! n]"
      using True by (subst toString.simps) (simp only: if_True)
    then have "foldl ?f 0 (toString n) = 10 * 0 + n"
      by (simp only: foldl_Cons foldl_Nil digit_index [OF True])
    then show ?thesis by simp
  next
    case False
    have m: "n mod 10 < 10" by simp
    have "toString n = toString (n div 10) @ [''0123456789'' ! (n mod 10)]"
      using False by (subst toString.simps) (simp only: if_False)
    then have "foldl ?f 0 (toString n) = 10 * (n div 10) + n mod 10"
      by (simp only: foldl_append foldl_Cons foldl_Nil digit_index [OF m] "1.IH" [OF False])
    then show ?thesis by simp
  qed
qed

lemma toString_inj: "toString m = toString n \<Longrightarrow> m = n"
  by (metis toString_inverse)

lemma toString_initial_ids:
  "toString 1 = ''1''" "toString 2 = ''2''" "toString 3 = ''3''" "toString 4 = ''4''"
  "toString 5 = ''5''" "toString (Suc 0) = ''1''"
  by (subst toString.simps, simp)+

lemma crowded_ids:
  "map id_str crowded_items =
     map toString [1, 2, 3, 4, 5] @ map toString [1700000000000..<1700000000097]"
  by (simp add: crowded_items_def initial_items_def o_def toString_initial_ids
      del: upt_rec_numeral)

lemma crowded_distinct: "distinct (map id_str crowded_items)"
proof -
  have "distinct ([1, 2, 3, 4, 5] @ [1700000000000..<1700000000097])"
    by (simp del: upt_rec_numeral)
  moreover have "inj_on toString (set ([1, 2, 3, 4, 5] @ [1700000000000..<1700000000097]))"
    by (rule inj_onI) (rule toString_inj)
  ultimately have "distinct (map toString ([1, 2, 3, 4, 5] @ [1700000000000..<1700000000097]))"
    by (simp only: distinct_map)
  then show ?thesis
    by (simp only: crowded_ids map_append)
qed

lemma crowded_visible: "\<forall>item\<in>set crowded_items. \<not> hidden item \<and> probability item = 1"
  by (simp add: crowded_items_def initial_items_def ball_Un del: upt_rec_numeral)

lemma crowded_length: "length crowded_items = 102"
  by (simp add: crowded_items_def initial_items_def del: upt_rec_numeral)

lemma crowded_remaining:
  "length (filter (\<lambda>item. id_str item \<noteq> ''1'') crowded_items) = 101"
proof -
  have "length (filter (\<lambda>i. i \<noteq> ''1'') (map id_str crowded_items)) = 101"
  proof -
    have "\<forall>now\<in>set [1700000000000..<1700000000097]. toString now \<noteq> ''1''"
    proof
      fix now assume "now \<in> set [1700000000000..<1700000000097]"
      then have "now \<noteq> 1" by (simp del: upt_rec_numeral)
      then show "toString now \<noteq> ''1''"
        using toString_inj [of now 1] toString_initial_ids(1) by metis
    qed
    then have "filter (\<lambda>i. i \<noteq> ''1'') (map toString [1700000000000..<1700000000097]) =
        map toString [1700000000000..<1700000000097]"
      by (simp del: upt_rec_numeral)
    then show ?thesis
      by (simp add: crowded_ids toString_initial_ids del: upt_rec_numeral)
  qed
  then show ?thesis
    by (simp add: filter_map o_def)
qed

lemma no_hidden_visible: "\<forall>item\<in>set items. \<not> hidden item \<Longrightarrow> getVisibleItems items = items"
  by (simp add: getVisibleItems_def)

text \<open>
  Claim C4 at the crowded collection: all 102 items are visible and hold the weight 1;
  \<open>removeItem("1")\<close> leaves 101 visible items, the equal share is \<open>floor(100 / 101) = 0\<close>,
  and 100 items end with the weight 0.
\<close>

theorem equal_share_zero_weight:
  "length crowded_items = 102 \<and>
   list_all (\<lambda>item. \<not> hidden item \<and> probability item = 1) crowded_items \<and>
   map probability (removeItem ''1'' crowded_items) = replicate 100 0 @ [100]"
proof -
  let ?upd = "filter (\<lambda>item. id_str item \<noteq> ''1'') crowded_items"
  have vis: "getVisibleItems ?upd = ?upd"
    using crowded_visible by (simp add: no_hidden_visible)
  have n: "length (getVisibleItems ?upd) = 101"
    by (simp add: vis crowded_remaining)
  have ne: "getVisibleItems ?upd \<noteq> []"
    using n by auto
  have "filter hidden (removeItem ''1'' crowded_items) = []"
    using crowded_visible by (simp add: removeItem_hidden)
  then have "getVisibleItems (removeItem ''1'' crowded_items) = removeItem ''1'' crowded_items"
    by (simp add: no_hidden_visible filter_empty_conv)
  moreover have "map probability (getVisibleItems (removeItem ''1'' crowded_items)) =
      replicate 100 0 @ [100]"
    using removeItem_weights [OF _ crowded_distinct ne]
    by (simp add: crowded_length n)
  ultimately show ?thesis
    using crowded_visible crowded_length by (simp add: list_all_iff)
qed



section \<open>The floor of two items\<close>

lemma addItem_length:
  "length (addItem now l items) = (if trim_empty l then length items else Suc (length items))"
  by (simp add: addItem_def Let_def normalize_length)

lemma removeItem_length:
  "length (removeItem i items) =
    (if length items \<le> 2 then length items
     else length (filter (\<lambda>item. id_str item \<noteq> i) items))"
  by (simp add: removeItem_def Let_def merge_back_length)

lemma updateProbability_length: "length (updateProbability i v items) = length items"
  by (simp add: updateProbability_def Let_def normalize_length)

lemma toggle_length: "length (toggleItemVisibility i items) = length items"
  by (simp add: toggleItemVisibility_def Let_def merge_back_length)

lemma addItem_ids:
  "map id_str (addItem now l items) =
    (if trim_empty l then map id_str items else map id_str items @ [toString now])"
  by (simp add: addItem_def Let_def normalize_fields)

lemma removeItem_ids:
  "map id_str (removeItem i items) =
    (if length items \<le> 2 then map id_str items
     else map id_str (filter (\<lambda>item. id_str item \<noteq> i) items))"
  by (simp add: removeItem_def Let_def merge_back_ids)

lemma updateProbability_ids: "map id_str (updateProbability i v items) = map id_str items"
  by (simp add: updateProbability_def Let_def normalize_fields o_def)

lemma toggle_ids: "map id_str (toggleItemVisibility i items) = map id_str items"
  by (simp add: toggleItemVisibility_def Let_def merge_back_ids o_def)

lemma filter_distinct_length:
  "distinct (map f xs) \<Longrightarrow> length xs \<le> Suc (length (filter (\<lambda>x. f x \<noteq> i) xs))"
proof (induction xs)
  case Nil
  then show ?case by simp
next
  case (Cons x xs)
  show ?case
  proof (cases "f x = i")
    case True
    with Cons.prems have "i \<notin> f ` set xs" by simp
    then have "\<forall>y\<in>set xs. f y \<noteq> i" by blast
    then have "filter (\<lambda>x. f x \<noteq> i) xs = xs" by simp
    with True show ?thesis by simp
  next
    case False
    with Cons show ?thesis by simp
  qed
qed

lemma apply_op_floor:
  assumes "distinct (map id_str items)" "2 \<le> length items" "ids_fresh [op] items"
  shows "distinct (map id_str (apply_op op items)) \<and> 2 \<le> length (apply_op op items)"
proof (cases op)
  case (AddSegment now l)
  then show ?thesis
    using assms by (simp add: addItem_ids addItem_length)
next
  case (RemoveSegment i)
  then show ?thesis
    using assms(1,2) filter_distinct_length [OF assms(1), of i]
    by (simp add: removeItem_ids removeItem_length distinct_map_filter)
next
  case (SetWeight i v)
  then show ?thesis
    using assms by (simp add: updateProbability_ids updateProbability_length)
next
  case (ToggleVisibility i)
  then show ?thesis
    using assms by (simp add: toggle_ids toggle_length)
qed

lemma ids_fresh_Cons:
  "ids_fresh (op # ops) items \<longleftrightarrow> ids_fresh [op] items \<and> ids_fresh ops (apply_op op items)"
  by (cases op) simp_all

lemma run_floor:
  assumes "distinct (map id_str items)" "2 \<le> length items" "ids_fresh ops items"
  shows "distinct (map id_str (run ops items)) \<and> 2 \<le> length (run ops items)"
  using assms
proof (induction ops arbitrary: items)
  case Nil
  then show ?case by simp
next
  case (Cons op ops)
  from Cons.prems(3) ids_fresh_Cons [of op ops items]
  have f: "ids_fresh [op] items" "ids_fresh ops (apply_op op items)"
    by blast+
  have "distinct (map id_str (apply_op op items)) \<and> 2 \<le> length (apply_op op items)"
    by (rule apply_op_floor [OF Cons.prems(1,2) f(1)])
  with Cons.IH [of "apply_op op items"] f(2)
  show ?case by simp
qed

lemma initial_wf: "distinct (map id_str initial_items) \<and> 2 \<le> length initial_items"
  by (simp add: initial_items_def)

text \<open>
  Claim C6. On a collection of at most 2 items \<open>removeItem\<close> returns the collection
  unchanged, whatever the id; and the collection never has fewer than 2 items after a
  sequence of operations run from the initial collection, each addition bringing an id
  of its own.
\<close>

theorem segment_floor:
  "(length items \<le> 2 \<longrightarrow> removeItem i items = items) \<and>
   (ids_fresh ops initial_items \<longrightarrow> 2 \<le> length (run ops initial_items))"
  using run_floor [of initial_items ops] initial_wf
  by (simp add: removeItem_def)

theorem segment_floor_witness:
  "length (removeItem ''4'' (removeItem ''5'' (removeItem ''1'' initial_items))) \<le> 2 \<and>
   removeItem ''2'' (removeItem ''4'' (removeItem ''5'' (removeItem ''1'' initial_items))) =
     removeItem ''4'' (removeItem ''5'' (removeItem ''1'' initial_items)) \<and>
   ids_fresh [RemoveSegment ''1'', AddSegment 1700000000000 ''Prize 6'', RemoveSegment ''5'',
      RemoveSegment ''4'', RemoveSegment ''1700000000000'', RemoveSegment ''2'', RemoveSegment ''3'']
     initial_items \<and>
   2 \<le> length (run [RemoveSegment ''1'', AddSegment 1700000000000 ''Prize 6'', RemoveSegment ''5'',
      RemoveSegment ''4'', RemoveSegment ''1700000000000'', RemoveSegment ''2'', RemoveSegment ''3'']
     initial_items)"
proof -
  let ?two = "removeItem ''4'' (removeItem ''5'' (removeItem ''1'' initial_items))"
  let ?ops = "[RemoveSegment ''1'', AddSegment 1700000000000 ''Prize 6'', RemoveSegment ''5'',
      RemoveSegment ''4'', RemoveSegment ''1700000000000'', RemoveSegment ''2'', RemoveSegment ''3'']"
  have l: "length ?two \<le> 2"
    by (simp add: wheel_defs)
  have f: "ids_fresh ?ops initial_items"
    by (simp add: wheel_defs)
  from l f segment_floor [of ?two "''2''" ?ops] show ?thesis
    by blast
qed

section \<open>The total of the visible weights\<close>

lemma normalize_ge_1: "\<forall>x\<in>set (normalizeProbabilities items fixedId). 1 \<le> probability x"
  by (auto simp: normalizeProbabilities_def Let_def split: option.splits)

lemma clamp_total_pos:
  assumes "items \<noteq> []"
  shows "0 < sum_list (map (\<lambda>x. max 1 (probability x)) items)"
proof -
  have "int (length items) \<le> sum_list (map (\<lambda>x. max 1 (probability x)) items)"
    by (induction items) auto
  with assms show ?thesis by (cases items) auto
qed

lemma normalize_proportional_probabilities:
  assumes "items \<noteq> []" and "fixedId = None \<or> fixedId = Some []"
  shows "map probability (normalizeProbabilities items fixedId) =
    map (\<lambda>x. max 1 (Math_round (dmul (rat_of_int 100)
      (ddiv (rat_of_int (max 1 (probability x)))
        (rat_of_int (sum_list (map (\<lambda>x. max 1 (probability x)) items))))))) items"
  using assms clamp_total_pos [OF assms(1)]
  by (auto simp: normalizeProbabilities_def Let_def reduce_sum_sum_list o_def
      dmul_commute [of _ 100])

lemma normalize_proportional_total:
  assumes "items \<noteq> []" and "fixedId = None \<or> fixedId = Some []"
  shows "\<bar>sum_list (map probability (normalizeProbabilities items fixedId)) - 100\<bar>
    \<le> int (length items)"
proof -
  have "\<forall>x\<in>set items. 1 \<le> max 1 (probability x)" by simp
  from rescale_total [of items "\<lambda>x. max 1 (probability x)" 100, OF this assms(1) _ _ refl]
  show ?thesis
    by (simp only: normalize_proportional_probabilities [OF assms])
qed

lemma sum_list_split:
  "sum_list (map h xs) =
    sum_list (map h (filter P xs)) + (sum_list (map h (filter (\<lambda>x. \<not> P x) xs)) :: int)"
  by (induction xs) simp_all

lemma filter_distinct_find:
  assumes "distinct (map f xs)" "find (\<lambda>x. f x = a) xs = Some y"
  shows "filter (\<lambda>x. f x = a) xs = [y]"
  using assms
proof (induction xs)
  case Nil
  then show ?case by simp
next
  case (Cons x xs)
  show ?case
  proof (cases "f x = a")
    case True
    with Cons.prems have "a \<notin> f ` set xs" "x = y" by auto
    then have "filter (\<lambda>x. f x = a) xs = []" by (auto simp: filter_empty_conv)
    with True \<open>x = y\<close> show ?thesis by simp
  next
    case False
    with Cons show ?thesis by simp
  qed
qed

lemma normalize_not_found:
  assumes "fid \<noteq> []" "find (\<lambda>item. id_str item = fid) items = None"
  shows "normalizeProbabilities items (Some fid) =
    map (\<lambda>item. item\<lparr>probability := max 1 (probability item)\<rparr>) items"
  using assms by (simp add: normalizeProbabilities_def Let_def find_map_comm)


lemma normalize_pinned_probabilities:
  assumes "fid \<noteq> []" and "find (\<lambda>item. id_str item = fid) items = Some fx"
    and "filter (\<lambda>x. id_str x \<noteq> fid) items \<noteq> []"
  shows "map probability (normalizeProbabilities items (Some fid)) =
    map (\<lambda>x. if id_str x = fid then max 1 (probability x)
              else max 1 (Math_round (dmul (rat_of_int (100 - max 1 (probability fx)))
                (ddiv (rat_of_int (max 1 (probability x)))
                 (rat_of_int (sum_list (map (\<lambda>x. max 1 (probability x))
                   (filter (\<lambda>x. id_str x \<noteq> fid) items)))))))) items"
proof -
  from assms(2) have "items \<noteq> []" by auto
  from clamp_total_pos [OF this] clamp_total_pos [OF assms(3)] assms(1,2)
  show ?thesis
    by (auto simp: normalizeProbabilities_def Let_def reduce_sum_sum_list o_def find_map_comm
        filter_map)
qed

lemma normalize_pinned_total:
  assumes "distinct (map id_str items)" and "fid \<noteq> []"
    and "find (\<lambda>item. id_str item = fid) items = Some fx"
    and "1 \<le> probability fx" and "probability fx \<le> 99" and "2 \<le> length items"
  shows "\<bar>sum_list (map probability (normalizeProbabilities items (Some fid))) - 100\<bar>
    \<le> int (length items)"
proof -
  let ?others = "filter (\<lambda>x. \<not> id_str x = fid) items"
  let ?p = "\<lambda>x. max 1 (probability x)"
  let ?R = "100 - max 1 (probability fx)"
  let ?h = "\<lambda>x. if id_str x = fid then max 1 (probability x)
              else max 1 (Math_round (dmul (rat_of_int ?R)
                (ddiv (rat_of_int (?p x)) (rat_of_int (sum_list (map ?p ?others))))))"
  have one: "filter (\<lambda>x. id_str x = fid) items = [fx]"
    by (rule filter_distinct_find [OF assms(1,3)])
  have "length items = length (filter (\<lambda>x. id_str x = fid) items) + length ?others"
    by (rule sum_length_filter_compl [symmetric])
  with one assms(6) have len: "length items = Suc (length ?others)" and ne: "?others \<noteq> []"
    by auto
  have eq: "map probability (normalizeProbabilities items (Some fid)) = map ?h items"
    using normalize_pinned_probabilities [OF assms(2,3)] ne by simp
  have fixed: "sum_list (map ?h (filter (\<lambda>x. id_str x = fid) items)) = probability fx"
    using assms(4) find_Some_P [OF assms(3)] by (simp add: one)
  have ho: "map ?h ?others = map (\<lambda>x. max 1 (Math_round (dmul (rat_of_int ?R)
                (ddiv (rat_of_int (?p x)) (rat_of_int (sum_list (map ?p ?others))))))) ?others"
    by (rule map_cong) simp_all
  have others: "\<bar>sum_list (map ?h ?others) - ?R\<bar> \<le> int (length ?others)"
    unfolding ho
  proof (rule rescale_total [OF _ ne _ _ refl])
    show "\<forall>x\<in>set ?others. 1 \<le> ?p x" by simp
    show "0 \<le> ?R" using assms(5) by simp
    show "?R \<le> 100" by simp
  qed
  have "sum_list (map ?h items) =
      sum_list (map ?h (filter (\<lambda>x. id_str x = fid) items)) + sum_list (map ?h ?others)"
    by (rule sum_list_split)
  with fixed others assms(4) len
  have "\<bar>sum_list (map ?h items) - 100\<bar> \<le> int (length items)"
    by simp
  then show ?thesis by (simp only: eq)
qed

lemma clamp_map_id:
  "\<forall>x\<in>set xs. 1 \<le> probability x \<Longrightarrow>
     map (\<lambda>x. max 1 (probability x)) xs = map probability xs"
  by (simp add: max_def)

lemma all_visible_iff: "getVisibleItems items = items \<longleftrightarrow> no_hidden items"
  by (simp add: getVisibleItems_def filter_id_conv list_all_iff no_hidden_def)

lemma normalize_all_visible:
  assumes "getVisibleItems items = items"
  shows "getVisibleItems (normalizeProbabilities items fixedId) = normalizeProbabilities items fixedId"
proof -
  have "map hidden (normalizeProbabilities items fixedId) = map hidden items"
    by (simp only: normalize_fields)
  then have "hidden ` set (normalizeProbabilities items fixedId) = hidden ` set items"
    by (metis list.set_map)
  moreover have "hidden ` set items \<subseteq> {False}"
    using assms by (auto simp: getVisibleItems_def filter_id_conv)
  ultimately have "hidden ` set (normalizeProbabilities items fixedId) \<subseteq> {False}"
    by simp
  then have "\<forall>x\<in>set (normalizeProbabilities items fixedId). \<not> hidden x"
    by blast
  then show ?thesis
    by (simp add: getVisibleItems_def)
qed

text \<open>A normalized collection without hidden items has its visible total near 100 as soon
  as its total is.\<close>

lemma normalized_near:
  assumes "getVisibleItems items = items"
    and "\<bar>sum_list (map probability (normalizeProbabilities items fixedId)) - 100\<bar>
      \<le> int (length items)"
  shows "near_100 (normalizeProbabilities items fixedId)"
proof -
  let ?r = "normalizeProbabilities items fixedId"
  have c: "map (\<lambda>x. max 1 (probability x)) ?r = map probability ?r"
    by (rule clamp_map_id) (rule normalize_ge_1)
  have v: "getVisibleItems ?r = ?r"
    by (rule normalize_all_visible [OF assms(1)])
  have l: "length ?r = length items"
    by (rule normalize_length)
  show ?thesis
    unfolding near_100_def v c l using assms(2) by blast
qed

lemma addItem_near:
  assumes "no_hidden items" and "\<not> trim_empty l"
  shows "near_100 (addItem now l items)"
proof -
  let ?new = "\<lparr>id_str = toString now, label = l, probability = 10,
      color = COLORS ! (length items mod length COLORS), hidden = False\<rparr>"
  have "near_100 (normalizeProbabilities (items @ [?new]) None)"
  proof (rule normalized_near)
    show "getVisibleItems (items @ [?new]) = items @ [?new]"
      using assms(1) by (simp add: all_visible_iff no_hidden_def)
    show "\<bar>sum_list (map probability (normalizeProbabilities (items @ [?new]) None)) - 100\<bar>
      \<le> int (length (items @ [?new]))"
      by (rule normalize_proportional_total) simp_all
  qed
  with assms(2) show ?thesis by (simp only: addItem_def Let_def if_False)
qed

lemma updateProbability_near:
  assumes "distinct (map id_str items)" and "2 \<le> length items" and "no_hidden items"
    and "i = [] \<or> i \<in> set (map id_str items)"
  shows "near_100 (updateProbability i v items)"
proof -
  let ?nv = "max 1 (min 99 v)"
  let ?upd = "map (\<lambda>item. if id_str item = i then item\<lparr>probability := ?nv\<rparr> else item) items"
  have r: "updateProbability i v items = normalizeProbabilities ?upd (Some i)"
    by (simp add: updateProbability_def Let_def)
  have ids: "map id_str ?upd = map id_str items"
    by (simp add: o_def if_distrib [of id_str])
  have d: "distinct (map id_str ?upd)"
    using assms(1) by (simp only: ids)
  have l: "2 \<le> length ?upd"
    using assms(2) by simp
  have vis: "getVisibleItems ?upd = ?upd"
    using assms(3) by (auto simp: all_visible_iff no_hidden_def list_all_iff)
  have ne: "items \<noteq> []"
    using assms(2) by auto
  have "\<bar>sum_list (map probability (normalizeProbabilities ?upd (Some i))) - 100\<bar>
      \<le> int (length ?upd)"
  proof (cases "i = []")
    case True
    show ?thesis
      by (rule normalize_proportional_total) (use ne True in simp_all)
  next
    case False
    with assms(4) have "i \<in> set (map id_str items)"
      by blast
    then have "i \<in> set (map id_str ?upd)"
      by (simp only: ids)
    then have "\<exists>x\<in>set ?upd. id_str x = i"
      by (simp only: set_map) blast
    then obtain fx where Some: "find (\<lambda>item. id_str item = i) ?upd = Some fx"
      by (cases "find (\<lambda>item. id_str item = i) ?upd") (simp_all only: find_None_iff, blast)
    from find_Some_P [OF Some] have fx: "id_str fx = i" "fx \<in> set ?upd" by blast+
    from fx(2)
    have "fx \<in> (\<lambda>item. if id_str item = i then item\<lparr>probability := ?nv\<rparr> else item) ` set items"
      by (simp only: set_map)
    then obtain y where "fx = (if id_str y = i then y\<lparr>probability := ?nv\<rparr> else y)"
      by blast
    with fx(1) have "probability fx = ?nv"
      by (cases "id_str y = i") simp_all
    then have "1 \<le> probability fx" "probability fx \<le> 99" by simp_all
    from normalize_pinned_total [OF d False Some this l] show ?thesis .
  qed
  then show ?thesis
    unfolding r by (rule normalized_near [OF vis])
qed

lemma updateProbability_unknown:
  assumes "i \<noteq> []" and "i \<notin> set (map id_str items)" and "near_100 items"
  shows "near_100 (updateProbability i v items)"
proof -
  let ?clamp = "\<lambda>item. item\<lparr>probability := max 1 (probability item)\<rparr>"
  from assms(2) have no: "\<forall>x\<in>set items. id_str x \<noteq> i" by auto
  then have same: "map (\<lambda>item. if id_str item = i
      then item\<lparr>probability := max 1 (min 99 v)\<rparr> else item) items = items"
    by (intro map_idI) simp
  from no have "find (\<lambda>item. id_str item = i) items = None"
    by (simp add: find_None_iff)
  from normalize_not_found [OF assms(1) this]
  have r: "updateProbability i v items = map ?clamp items"
    by (simp add: updateProbability_def Let_def same)
  have v: "getVisibleItems (map ?clamp items) = map ?clamp (getVisibleItems items)"
    by (simp add: getVisibleItems_def filter_map o_def)
  have p: "map probability (map ?clamp (getVisibleItems items)) =
      map (\<lambda>item. max 1 (probability item)) (getVisibleItems items)"
    by (simp add: o_def)
  have c: "map (\<lambda>item. max 1 (probability item)) (map ?clamp (getVisibleItems items)) =
      map (\<lambda>item. max 1 (probability item)) (getVisibleItems items)"
    by (simp add: o_def)
  show ?thesis
    unfolding r near_100_def v p c using assms(3) by (simp add: near_100_def)
qed

lemma equal_share_clamped:
  assumes "0 < n"
  shows "\<bar>sum_list (map (max 1)
      (replicate (n - 1) (100 div int n) @ [100 - (100 div int n) * (int n - 1)])) - 100\<bar>
    \<le> int n"
proof -
  let ?e = "100 div int n"
  have e0: "0 \<le> ?e"
    using assms by (simp add: pos_imp_zdiv_nonneg_iff)
  have "?e * int n + 100 mod int n = 100"
    by simp
  moreover have "0 \<le> 100 mod int n"
    using assms by simp
  ultimately have en: "?e * int n \<le> 100"
    by linarith
  have n1: "int (n - Suc 0) = int n - 1"
    using assms by simp
  have s: "sum_list (map (max 1) (replicate (n - 1) ?e @ [100 - ?e * (int n - 1)])) =
      (int n - 1) * max 1 ?e + max 1 (100 - ?e * (int n - 1))"
    by (simp add: sum_list_replicate n1)
  show ?thesis
  proof (cases "?e = 0")
    case True
    then have "(int n - 1) * max 1 ?e + max 1 (100 - ?e * (int n - 1)) = int n - 1 + 100"
      by simp
    with assms show ?thesis
      unfolding s by simp
  next
    case False
    with e0 have e1: "1 \<le> ?e" by linarith
    have "?e * (int n - 1) = ?e * int n - ?e"
      by (simp add: algebra_simps)
    with en e1 have "1 \<le> 100 - ?e * (int n - 1)"
      by linarith
    with e1 have "(int n - 1) * max 1 ?e + max 1 (100 - ?e * (int n - 1)) = 100"
      by (simp add: max_def algebra_simps)
    then show ?thesis
      unfolding s by simp
  qed
qed

lemma equal_share_near:
  assumes "distinct (map id_str upd)"
  shows "near_100 (merge_back (calculateEqualShare (getVisibleItems upd)) upd)"
proof -
  let ?vis = "getVisibleItems upd"
  let ?nv = "calculateEqualShare ?vis"
  let ?r = "merge_back ?nv upd"
  have dv: "distinct (map id_str ?vis)"
    using assms by (simp add: getVisibleItems_def distinct_map_filter)
  have v: "getVisibleItems ?r = ?nv"
    by (rule equal_share_visible [OF dv])
  have near: "\<bar>sum_list (map probability ?nv) - 100\<bar> \<le> int (length ?nv) \<and>
      \<bar>sum_list (map (\<lambda>item. max 1 (probability item)) ?nv) - 100\<bar> \<le> int (length ?nv)"
    if "?nv \<noteq> []"
  proof -
    from that have ne: "?vis \<noteq> []"
      using calc_length [of ?vis] by auto
    then have n: "0 < length ?vis" by simp
    have p: "map probability ?nv =
        replicate (length ?vis - 1) (100 div int (length ?vis)) @
          [100 - (100 div int (length ?vis)) * (int (length ?vis) - 1)]"
      by (rule calc_probability [OF ne])
    have "map (\<lambda>item. max 1 (probability item)) ?nv = map (max 1) (map probability ?nv)"
      by (simp add: o_def)
    then have c: "sum_list (map (\<lambda>item. max 1 (probability item)) ?nv) =
        sum_list (map (max 1) (replicate (length ?vis - 1) (100 div int (length ?vis)) @
          [100 - (100 div int (length ?vis)) * (int (length ?vis) - 1)]))"
      by (simp only: p)
    have "sum_list (map probability ?nv) = 100"
      by (simp only: p equal_share_sum [OF n])
    moreover have "\<bar>sum_list (map (\<lambda>item. max 1 (probability item)) ?nv) - 100\<bar>
        \<le> int (length ?vis)"
      by (simp only: c equal_share_clamped [OF n])
    ultimately show ?thesis
      by (simp add: calc_length)
  qed
  then show ?thesis
    unfolding near_100_def v by blast
qed

lemma removeItem_near:
  assumes "distinct (map id_str items)" and "2 < length items"
  shows "near_100 (removeItem i items)"
proof -
  have "distinct (map id_str (filter (\<lambda>item. id_str item \<noteq> i) items))"
    using assms(1) by (simp add: distinct_map_filter)
  then have "near_100 (merge_back (calculateEqualShare (getVisibleItems
      (filter (\<lambda>item. id_str item \<noteq> i) items))) (filter (\<lambda>item. id_str item \<noteq> i) items))"
    by (rule equal_share_near)
  with assms(2) show ?thesis
    by (simp add: removeItem_def Let_def)
qed

lemma toggle_near:
  assumes "distinct (map id_str items)"
  shows "near_100 (toggleItemVisibility i items)"
proof -
  let ?upd = "map (\<lambda>item. if id_str item = i then item\<lparr>hidden := \<not> hidden item\<rparr> else item) items"
  have "map id_str ?upd = map id_str items"
    by (simp add: o_def if_distrib [of id_str])
  then have "distinct (map id_str ?upd)"
    using assms by (simp only:)
  then have "near_100 (merge_back (calculateEqualShare (getVisibleItems ?upd)) ?upd)"
    by (rule equal_share_near)
  then show ?thesis
    by (simp add: toggleItemVisibility_def Let_def)
qed

text \<open>One operation: what \<open>settles\<close> announces holds.\<close>

lemma apply_op_near:
  assumes "distinct (map id_str items)" and "2 \<le> length items"
    and "b \<longrightarrow> near_100 items" and "settles b op items"
  shows "near_100 (apply_op op items)"
proof (cases op)
  case (AddSegment now l)
  show ?thesis
  proof (cases "trim_empty l")
    case True
    with assms(3,4) AddSegment show ?thesis by (simp add: addItem_def)
  next
    case False
    with assms(4) AddSegment have "no_hidden items" by simp
    from addItem_near [OF this False] AddSegment show ?thesis by simp
  qed
next
  case (RemoveSegment i)
  show ?thesis
  proof (cases "2 < length items")
    case True
    from removeItem_near [OF assms(1) True] RemoveSegment show ?thesis by simp
  next
    case False
    with assms(3,4) RemoveSegment show ?thesis by (simp add: removeItem_def)
  qed
next
  case (SetWeight i v)
  show ?thesis
  proof (cases "i = [] \<or> i \<in> set (map id_str items)")
    case True
    with assms(4) SetWeight have "no_hidden items" by simp
    from updateProbability_near [OF assms(1,2) this True] SetWeight show ?thesis by simp
  next
    case False
    with assms(3,4) SetWeight have "near_100 items" by simp
    with False SetWeight show ?thesis by (simp add: updateProbability_unknown)
  qed
next
  case (ToggleVisibility i)
  from toggle_near [OF assms(1)] ToggleVisibility show ?thesis by simp
qed

lemma run_near:
  assumes "distinct (map id_str items)" and "2 \<le> length items" and "ids_fresh ops items"
    and "b \<longrightarrow> near_100 items" and "settled_by b ops items"
  shows "near_100 (run ops items)"
  using assms
proof (induction ops arbitrary: items b)
  case Nil
  then show ?case by simp
next
  case (Cons op ops)
  from Cons.prems(3) ids_fresh_Cons [of op ops items]
  have f: "ids_fresh [op] items" "ids_fresh ops (apply_op op items)"
    by blast+
  from Cons.prems(5) have s: "settled_by (settles b op items) ops (apply_op op items)"
    by simp
  have wf: "distinct (map id_str (apply_op op items)) \<and> 2 \<le> length (apply_op op items)"
    by (rule apply_op_floor [OF Cons.prems(1,2) f(1)])
  have n: "settles b op items \<longrightarrow> near_100 (apply_op op items)"
    using apply_op_near [OF Cons.prems(1,2,4)] by blast
  from wf have "near_100 (run ops (apply_op op items))"
    using Cons.IH [of "apply_op op items" "settles b op items"] f(2) n s by blast
  then show ?case by simp
qed

lemma initial_near: "near_100 initial_items"
  by (simp add: near_100_def initial_items_def getVisibleItems_def)

text \<open>
  Claim C3, as stated, fails. Hiding all five initial items leaves no visible item: the
  visible total 0 is not within 0 of 100. And once item 2 is hidden, \<open>addItem\<close> hands all
  six items to the normalizer, the defect recorded under claim C8: the five visible items
  are left with 19, 19, 19, 19 and 8, that is 84, which is 16 away from 100.
\<close>

theorem visible_total_far_from_100:
  "\<not> \<bar>sum_list (map probability (getVisibleItems
        (run [ToggleVisibility ''1'', ToggleVisibility ''2'', ToggleVisibility ''3'',
              ToggleVisibility ''4'', ToggleVisibility ''5''] initial_items))) - 100\<bar>
      \<le> int (length (getVisibleItems
        (run [ToggleVisibility ''1'', ToggleVisibility ''2'', ToggleVisibility ''3'',
              ToggleVisibility ''4'', ToggleVisibility ''5''] initial_items))) \<and>
   \<not> \<bar>sum_list (map probability (getVisibleItems
        (run [ToggleVisibility ''2'', AddSegment 1700000000000 ''Prize 6''] initial_items))) - 100\<bar>
      \<le> int (length (getVisibleItems
        (run [ToggleVisibility ''2'', AddSegment 1700000000000 ''Prize 6''] initial_items)))"
proof -
  have "map probability (getVisibleItems
        (run [ToggleVisibility ''2'', AddSegment 1700000000000 ''Prize 6''] initial_items)) =
      [19, 19, 19, 19, 8]"
    by (simp add: wheel_defs)
  moreover have "getVisibleItems
        (run [ToggleVisibility ''1'', ToggleVisibility ''2'', ToggleVisibility ''3'',
              ToggleVisibility ''4'', ToggleVisibility ''5''] initial_items) = []"
    by (simp add: wheel_defs)
  ultimately show ?thesis
    using length_map [of probability "getVisibleItems
        (run [ToggleVisibility ''2'', AddSegment 1700000000000 ''Prize 6''] initial_items)"]
    by simp
qed

text \<open>
  Claim C3, amended. For every sequence of \<open>addItem\<close>, \<open>removeItem\<close>,
  \<open>updateProbability\<close> and \<open>toggleItemVisibility\<close> run from the initial collection, every
  added item getting an id of its own: if some item is visible after the sequence, and
  since the last \<open>toggleItemVisibility\<close> or \<open>removeItem\<close> above the floor no \<open>addItem\<close>
  with a label that is not blank and no \<open>updateProbability\<close> of an id of the collection
  has run with an item hidden, then the sum of the visible weights is within the number
  of visible items of 100. Nothing is said of the visible total between an \<open>addItem\<close> or
  \<open>updateProbability\<close> run with an item hidden and the next redistribution.
\<close>

theorem visible_total_near_100:
  assumes "ids_fresh ops initial_items" and "settled_by True ops initial_items"
    and "getVisibleItems (run ops initial_items) \<noteq> []"
  shows "\<bar>sum_list (map probability (getVisibleItems (run ops initial_items))) - 100\<bar>
    \<le> int (length (getVisibleItems (run ops initial_items)))"
proof -
  have "near_100 (run ops initial_items)"
    using run_near [of initial_items ops True] initial_wf initial_near assms(1,2) by blast
  with assms(3) show ?thesis
    by (simp add: near_100_def)
qed

theorem visible_total_near_100_witness:
  "ids_fresh [ToggleVisibility ''2'', AddSegment 1700000000000 ''Prize 6'',
      ToggleVisibility ''2'', SetWeight ''3'' 50] initial_items \<and>
   settled_by True [ToggleVisibility ''2'', AddSegment 1700000000000 ''Prize 6'',
      ToggleVisibility ''2'', SetWeight ''3'' 50] initial_items \<and>
   map probability (getVisibleItems (run [ToggleVisibility ''2'',
      AddSegment 1700000000000 ''Prize 6'', ToggleVisibility ''2'', SetWeight ''3'' 50]
      initial_items)) = [10, 10, 50, 10, 10, 12] \<and>
   \<bar>sum_list (map probability (getVisibleItems (run [ToggleVisibility ''2'',
      AddSegment 1700000000000 ''Prize 6'', ToggleVisibility ''2'', SetWeight ''3'' 50]
      initial_items))) - 100\<bar>
     \<le> int (length (getVisibleItems (run [ToggleVisibility ''2'',
      AddSegment 1700000000000 ''Prize 6'', ToggleVisibility ''2'', SetWeight ''3'' 50]
      initial_items)))"
proof -
  let ?ops = "[ToggleVisibility ''2'', AddSegment 1700000000000 ''Prize 6'',
      ToggleVisibility ''2'', SetWeight ''3'' 50]"
  have f: "ids_fresh ?ops initial_items"
    by (simp add: wheel_defs)
  have r: "settled_by True ?ops initial_items"
    by (simp add: wheel_defs no_hidden_def)
  have v: "map probability (getVisibleItems (run ?ops initial_items)) = [10, 10, 50, 10, 10, 12]"
    by (simp add: wheel_defs)
  then have ne: "getVisibleItems (run ?ops initial_items) \<noteq> []"
    by auto
  from visible_total_near_100 [OF f r ne] f r v show ?thesis
    by blast
qed

section \<open>Determinism of the resolver\<close>

lemma winner_loop_call_pure:
  "winner_loop_call normalizedAngle currentAngle items c =
    (winner_loop normalizedAngle currentAngle items, c)"
  by (induction items arbitrary: currentAngle) (simp_all add: Let_def)

lemma determineWinner_call_pure:
  "determineWinner_call c currentRotation visibleItems =
    (determineWinner currentRotation visibleItems, c)"
  by (simp add: determineWinner_call_def determineWinner_def Let_def winner_loop_call_pure)

text \<open>
  Claim C1. Two calls of \<open>determineWinner\<close> with the same rotation and the same items
  return the same item, or no item both times, whatever the state of the component, the
  clock and the random number generator are at either call; a call leaves the component
  as it was; and the value returned is the arc lookup on the two arguments.
\<close>

theorem determineWinner_deterministic:
  "fst (determineWinner_call c currentRotation visibleItems) =
     fst (determineWinner_call c' currentRotation visibleItems) \<and>
   snd (determineWinner_call c currentRotation visibleItems) = c \<and>
   fst (determineWinner_call c currentRotation visibleItems) =
     resolve_double_arcs (js_rem currentRotation 360)
       (normalizeProbabilities visibleItems None)"
  by (simp add: determineWinner_call_pure determineWinner_arcs)

end
